theory Spec2Isabelle
  imports Main "HOL-Library.AList" "HOL-Library.Sublist"
begin

section \<open>Python strings\<close>

text \<open>
  A Python \<open>str\<close> is a sequence of Unicode code points. The bullet character U+2022 does
  not fit into an 8-bit \<open>char\<close>, so a string is modelled as the list of its code points.
  \<open>ord_str\<close> turns an ASCII literal into that representation.
\<close>

type_synonym str = "nat list"

definition ord_str :: "string \<Rightarrow> str" where
  "ord_str s = map of_char s"

text \<open>
  \<open>str.isspace\<close>, \<open>str.strip()\<close> and the regular expression class \<open>\s\<close> all use the same
  set of white space code points.
\<close>

definition is_space :: "nat \<Rightarrow> bool" where
  "is_space c = (c \<in> set [9, 10, 11, 12, 13, 28, 29, 30, 31, 32, 133, 160, 5760,
       8192, 8193, 8194, 8195, 8196, 8197, 8198, 8199, 8200, 8201, 8202,
       8232, 8233, 8239, 8287, 12288])"

definition strip :: "str \<Rightarrow> str" where
  "strip s = rev (dropWhile is_space (rev (dropWhile is_space s)))"

text \<open>
  \<open>s.split(sep)\<close> for a separator: scan from the left, cut at every occurrence found,
  continue behind it. \<open>acc\<close> is the piece collected so far. (Python raises on an empty
  separator; the program only splits on the constants \<open>"\n"\<close> and \<open>" > "\<close>.)
\<close>

fun split_str :: "str \<Rightarrow> str \<Rightarrow> str \<Rightarrow> str list" where
  "split_str sep acc [] = [acc]"
| "split_str sep acc (c # cs) =
     (if sep \<noteq> [] \<and> prefix sep (c # cs)
      then acc # split_str sep [] (drop (length sep) (c # cs))
      else split_str sep (acc @ [c]) cs)"

fun join_str :: "str \<Rightarrow> str list \<Rightarrow> str" where
  "join_str sep [] = []"
| "join_str sep [x] = x"
| "join_str sep (x # y # ys) = x @ sep @ join_str sep (y # ys)"

definition nl :: str where
  "nl = [10]"

definition split_lines :: "str \<Rightarrow> str list" where
  "split_lines text = split_str nl [] text"

definition join_lines :: "str list \<Rightarrow> str" where
  "join_lines ls = join_str nl ls"

section \<open>Bullet normalization\<close>

text \<open>
  \<open>bullet_start_regex = ^\s*(?:[-*+\<bullet>]|(?:\d+\.))\s+\<close>.
  The matcher below is the backtracking search of the regular expression engine: every
  function returns the remainders of the input behind each possible match of its piece,
  in the order in which the engine tries them (greedy repetition first tries the longest
  run). The first remainder of the whole list is the match the engine reports.
  The table of Unicode decimal digits behind \<open>\d\<close> belongs to the Python runtime and is the
  parameter \<open>isd\<close>.
\<close>

fun star_cls :: "(nat \<Rightarrow> bool) \<Rightarrow> str \<Rightarrow> str list" where
  "star_cls p [] = [[]]"
| "star_cls p (c # cs) = (if p c then star_cls p cs @ [c # cs] else [c # cs])"

fun plus_cls :: "(nat \<Rightarrow> bool) \<Rightarrow> str \<Rightarrow> str list" where
  "plus_cls p [] = []"
| "plus_cls p (c # cs) = (if p c then star_cls p cs else [])"

fun one_cls :: "(nat \<Rightarrow> bool) \<Rightarrow> str \<Rightarrow> str list" where
  "one_cls p [] = []"
| "one_cls p (c # cs) = (if p c then [cs] else [])"

definition is_bullet_char :: "nat \<Rightarrow> bool" where
  \<comment> \<open>the class \<open>[-*+\<bullet>]\<close>\<close>
  "is_bullet_char c = (c = 45 \<or> c = 42 \<or> c = 43 \<or> c = 8226)"

definition is_dot :: "nat \<Rightarrow> bool" where
  "is_dot c = (c = 46)"

definition bullet_alt :: "(nat \<Rightarrow> bool) \<Rightarrow> str \<Rightarrow> str list" where
  \<comment> \<open>\<open>(?:[-*+\<bullet>]|(?:\d+\.))\<close>: the first alternative is tried first\<close>
  "bullet_alt isd s = one_cls is_bullet_char s @ concat (map (one_cls is_dot) (plus_cls isd s))"

definition bullet_start_regex :: "(nat \<Rightarrow> bool) \<Rightarrow> str \<Rightarrow> str list" where
  "bullet_start_regex isd s =
     concat (map (\<lambda>r1. concat (map (plus_cls is_space) (bullet_alt isd r1)))
                 (star_cls is_space s))"

text \<open>
  \<open>bullet_start_regex.match(ln)\<close>: the remainder behind the match, if there is one. The
  pattern is anchored at the start and never matches the empty string, so
  \<open>bullet_start_regex.sub("", ln)\<close> is that remainder.
\<close>

definition regex_match :: "(nat \<Rightarrow> bool) \<Rightarrow> str \<Rightarrow> str option" where
  "regex_match isd ln = (case bullet_start_regex isd ln of [] \<Rightarrow> None | r # _ \<Rightarrow> Some r)"

definition bullet_prefix :: str where
  \<comment> \<open>the two code points of \<open>"\<bullet> "\<close>\<close>
  "bullet_prefix = [8226, 32]"

definition normalize_line :: "(nat \<Rightarrow> bool) \<Rightarrow> str \<Rightarrow> str" where
  "normalize_line isd ln =
     (case regex_match isd ln of
        Some rest \<Rightarrow> bullet_prefix @ strip rest
      | None \<Rightarrow> ln)"

definition normalize_universal_bullets :: "(nat \<Rightarrow> bool) \<Rightarrow> str \<Rightarrow> str" where
  "normalize_universal_bullets isd text = join_lines (map (normalize_line isd) (split_lines text))"

section \<open>Conversion to HTML\<close>

text \<open>
  The loop of \<open>content_to_html\<close> carries \<open>html_parts\<close> and \<open>list_buffer\<close>; \<open>flush_list\<close>
  is the inner function that empties the buffer into the parts.
\<close>

definition flush_list :: "str list \<times> str list \<Rightarrow> str list \<times> str list" where
  "flush_list st =
     (case st of (html_parts, list_buffer) \<Rightarrow>
        if list_buffer \<noteq> []
        then (html_parts @ [ord_str ''<ul>'']
                @ map (\<lambda>item. ord_str ''<li>'' @ item @ ord_str ''</li>'') list_buffer
                @ [ord_str ''</ul>''], [])
        else (html_parts, list_buffer))"

definition html_step :: "str list \<times> str list \<Rightarrow> str \<Rightarrow> str list \<times> str list" where
  "html_step st ln =
     (case st of (html_parts, list_buffer) \<Rightarrow>
        if prefix bullet_prefix ln
        then (html_parts, list_buffer @ [strip (drop 2 ln)])
        else (case flush_list (html_parts, list_buffer) of (parts, buf) \<Rightarrow>
                if strip ln \<noteq> []
                then (parts @ [ord_str ''<p>'' @ strip ln @ ord_str ''</p>''], buf)
                else (parts, buf)))"

definition content_to_html :: "str \<Rightarrow> str" where
  "content_to_html content0 =
     (let content = strip content0 in
      if content = [] then []
      else join_lines (fst (flush_list (foldl html_step ([], []) (split_lines content)))))"

section \<open>The tree of notes\<close>

text \<open>
  An item is the dictionary \<open>{"content": ..., "image_path": ..., "subtitles": {...}}\<close> that
  \<open>add_title\<close> and \<open>add_subtitle\<close> create. A Python \<open>dict\<close> keeps its keys in insertion
  order, so \<open>accordion_data\<close> and every \<open>subtitles\<close> dictionary is an association list:
  \<open>d[k] = v\<close> is \<open>AList.update\<close> (in place for a present key, at the end for a new one),
  \<open>del d[k]\<close> is \<open>AList.delete\<close>, \<open>d[k]\<close> is \<open>map_of\<close>, \<open>list(d.keys())\<close> is \<open>map fst\<close>.
\<close>

datatype node = Node (content: str) (image_path: str) (subtitles: "(str \<times> node) list")

type_synonym dict = "(str \<times> node) list"

definition has_key :: "dict \<Rightarrow> str \<Rightarrow> bool" where
  \<comment> \<open>\<open>k in d\<close>\<close>
  "has_key d k = (k \<in> set (map fst d))"

definition dict_of_items :: "(str \<times> node) list \<Rightarrow> dict" where
  \<comment> \<open>\<open>d.clear()\<close> followed by \<open>for k, v in items: d[k] = v\<close>\<close>
  "dict_of_items items = foldl (\<lambda>d kv. AList.update (fst kv) (snd kv) d) [] items"

definition py_index :: "'a list \<Rightarrow> 'a \<Rightarrow> nat option" where
  \<comment> \<open>\<open>xs.index(x)\<close>; \<open>None\<close> stands for the \<open>ValueError\<close>\<close>
  "py_index xs x = (if x \<in> set xs then Some (length (takeWhile (\<lambda>y. y \<noteq> x) xs)) else None)"

definition path_sep :: str where
  \<comment> \<open>\<open>" > "\<close>\<close>
  "path_sep = [32, 62, 32]"

definition split_path :: "str \<Rightarrow> str list" where
  "split_path path_str = split_str path_sep [] path_str"

definition join_path :: "str list \<Rightarrow> str" where
  "join_path parts = join_str path_sep parts"

text \<open>
  The loop \<open>for part in parts[:-1]: if part not in parent: return None;
  parent = parent[part].get("subtitles", {})\<close>, shared by \<open>get_parent_dict_and_key\<close>,
  \<open>get_siblings\<close> and \<open>ensure_parent_path\<close>, run on the parts it is given.
\<close>

fun descend :: "dict \<Rightarrow> str list \<Rightarrow> dict option" where
  "descend parent [] = Some parent"
| "descend parent (part # parts) =
     (case map_of parent part of
        None \<Rightarrow> None
      | Some item \<Rightarrow> descend (subtitles item) parts)"

text \<open>
  The functions above hand out a reference to a dictionary inside the tree, and the
  callers then mutate it. The tree is a tree (no dictionary is reachable along two
  paths), so the mutation of the dictionary reached along \<open>parts\<close> is the functional update
  of the tree along the same path.
\<close>

fun update_dict_at :: "str list \<Rightarrow> (dict \<Rightarrow> dict) \<Rightarrow> dict \<Rightarrow> dict" where
  "update_dict_at [] f parent = f parent"
| "update_dict_at (part # parts) f parent =
     (case map_of parent part of
        None \<Rightarrow> parent
      | Some item \<Rightarrow>
          AList.update part
            (Node (content item) (image_path item) (update_dict_at parts f (subtitles item)))
            parent)"

definition get_parent_dict_and_key :: "dict \<Rightarrow> str \<Rightarrow> (dict \<times> str) option" where
  "get_parent_dict_and_key accordion_data path_str =
     (if path_str = [] then None
      else let parts = split_path path_str in
        case descend accordion_data (butlast parts) of
          None \<Rightarrow> None
        | Some parent \<Rightarrow>
            if has_key parent (last parts) then Some (parent, last parts) else None)"

definition get_item_data :: "dict \<Rightarrow> str \<Rightarrow> node option" where
  "get_item_data accordion_data path_str =
     (case get_parent_dict_and_key accordion_data path_str of
        None \<Rightarrow> None
      | Some (parent, key) \<Rightarrow> map_of parent key)"

definition get_siblings :: "dict \<Rightarrow> str \<Rightarrow> (dict \<times> str list) option" where
  "get_siblings accordion_data path_str =
     (if path_str = [] then None
      else let parts = split_path path_str in
        if length parts = 1 then Some (accordion_data, map fst accordion_data)
        else case descend accordion_data (butlast parts) of
               None \<Rightarrow> None
             | Some parent \<Rightarrow> Some (parent, map fst parent))"

definition ensure_parent_path :: "dict \<Rightarrow> str list \<Rightarrow> dict option" where
  \<comment> \<open>every item carries \<open>"subtitles"\<close>, so the branch that adds a missing one never runs\<close>
  "ensure_parent_path accordion_data parts = descend accordion_data (butlast parts)"

definition any_ancestor_locked :: "str set \<Rightarrow> str \<Rightarrow> str option" where
  "any_ancestor_locked locked path_str =
     (let parts = split_path path_str in
      find (\<lambda>candidate. candidate \<in> locked)
           (map (\<lambda>i. join_path (take (i + 1) parts)) [0 ..< length parts]))"

definition if_truthy :: "str option \<Rightarrow> str option" where
  \<comment> \<open>\<open>if locked_ancestor:\<close> holds for a string that is not empty\<close>
  "if_truthy r = (case r of None \<Rightarrow> None | Some g \<Rightarrow> if g = [] then None else Some g)"

section \<open>State and operations\<close>

record state =
  accordion_data :: dict
  current_selection :: str
  selected_image_path :: str
  locked_paths :: "str set"

text \<open>
  What an operation reports: \<open>Done\<close> when it runs to its end, otherwise the message box it
  shows before it returns (or the silent return).
\<close>

datatype outcome =
    Done
  | NoSelection
  | Locked str
  | NotFound
  | EmptyTitle
  | DuplicateTitle
  | ParentNotFound
  | AlreadyAtBoundary
  | Cancelled
  | InvalidPath
  | SourceNotFound
  | DestinationParentNotFound
  | DestinationDuplicate
  | KeyError

text \<open>
  \<open>update_structure_display\<close> without a filter: the list box shows every path of the tree;
  the selection becomes \<open>select_path\<close> when that path is shown and is cleared otherwise.
\<close>

fun all_paths :: "str \<Rightarrow> dict \<Rightarrow> str list" where
  "all_paths path [] = []"
| "all_paths path ((key, Node c i subs) # rest) =
     (let current_path = (if path \<noteq> [] then path @ path_sep @ key else key)
      in current_path # all_paths current_path subs @ all_paths path rest)"

definition update_structure_display :: "str option \<Rightarrow> state \<Rightarrow> state" where
  "update_structure_display select_path s =
     (case if_truthy select_path of
        None \<Rightarrow> s\<lparr>current_selection := []\<rparr>
      | Some p \<Rightarrow>
          if p \<in> set (all_paths [] (accordion_data s))
          then s\<lparr>current_selection := p\<rparr>
          else s\<lparr>current_selection := []\<rparr>)"

definition clear_inputs :: "state \<Rightarrow> state" where
  "clear_inputs s = s\<lparr>selected_image_path := []\<rparr>"

text \<open>
  The operations take what they read from the widgets and dialogs as arguments:
  \<open>title_entry\<close> and \<open>content_text\<close> are the texts of the two input fields, \<open>confirm\<close> is the
  answer to the delete dialog, \<open>new_path\<close> the answer to the path dialog (\<open>None\<close> when it is
  dismissed).
\<close>

definition rename_items :: "dict \<Rightarrow> str list \<Rightarrow> str \<Rightarrow> node \<Rightarrow> (str \<times> node) list option" where
  \<comment> \<open>the loop that fills \<open>new_items\<close> in \<open>save_changes\<close>; \<open>None\<close> is a \<open>KeyError\<close>\<close>
  "rename_items parent_dict keys new_title item_data =
     those (map (\<lambda>k. if k = new_title then Some (new_title, item_data)
                      else map_option (Pair k) (map_of parent_dict k)) keys)"

definition save_changes :: "(nat \<Rightarrow> bool) \<Rightarrow> str \<Rightarrow> str \<Rightarrow> state \<Rightarrow> outcome \<times> state" where
  "save_changes isd title_entry content_text s =
     (if current_selection s = [] then (NoSelection, s)
      else case if_truthy (any_ancestor_locked (locked_paths s) (current_selection s)) of
        Some locked_ancestor \<Rightarrow> (Locked locked_ancestor, s)
      | None \<Rightarrow>
         (case get_parent_dict_and_key (accordion_data s) (current_selection s) of
            None \<Rightarrow> (NotFound, s)
          | Some (parent_dict0, old_key) \<Rightarrow>
             (case map_of parent_dict0 old_key of
                None \<Rightarrow> (KeyError, s)
              | Some item_data0 \<Rightarrow>
                 let path_parts = split_path (current_selection s);
                     new_title = strip title_entry;
                     new_content = normalize_universal_bullets isd (strip content_text);
                     new_image_path = (if selected_image_path s \<noteq> [] then selected_image_path s
                                       else image_path item_data0)
                 in
                 if new_title = [] then (EmptyTitle, s)
                 else if new_title \<noteq> old_key \<and> has_key parent_dict0 new_title
                 then (DuplicateTitle, s)
                 else
                   let item_data = Node new_content new_image_path (subtitles item_data0);
                       parent_dict = AList.update old_key item_data parent_dict0
                   in
                   if new_title \<noteq> old_key then
                     (let keys = map fst parent_dict in
                      case py_index keys old_key of
                        None \<Rightarrow>
                          (NotFound,
                           s\<lparr>accordion_data :=
                               update_dict_at (butlast path_parts) (\<lambda>_. parent_dict) (accordion_data s)\<rparr>)
                      | Some idx \<Rightarrow>
                         (case rename_items parent_dict (keys[idx := new_title]) new_title item_data of
                            None \<Rightarrow>
                              (KeyError,
                               s\<lparr>accordion_data :=
                                   update_dict_at (butlast path_parts) (\<lambda>_. parent_dict) (accordion_data s)\<rparr>)
                          | Some new_items \<Rightarrow>
                              let sel = join_path (path_parts[length path_parts - 1 := new_title]) in
                              (Done,
                               update_structure_display (Some sel)
                                 (s\<lparr>accordion_data :=
                                      update_dict_at (butlast path_parts) (\<lambda>_. dict_of_items new_items)
                                        (accordion_data s),
                                    current_selection := sel\<rparr>))))
                   else
                     (Done,
                      update_structure_display (Some (current_selection s))
                        (s\<lparr>accordion_data :=
                             update_dict_at (butlast path_parts) (\<lambda>_. parent_dict) (accordion_data s)\<rparr>)))))"

definition delete_item :: "bool \<Rightarrow> state \<Rightarrow> outcome \<times> state" where
  "delete_item confirm s =
     (if current_selection s = [] then (NoSelection, s)
      else case if_truthy (any_ancestor_locked (locked_paths s) (current_selection s)) of
        Some locked_ancestor \<Rightarrow> (Locked locked_ancestor, s)
      | None \<Rightarrow>
         if \<not> confirm then (Cancelled, s)
         else case get_parent_dict_and_key (accordion_data s) (current_selection s) of
            None \<Rightarrow> (NotFound, s)
          | Some (parent_dict, key_to_delete) \<Rightarrow>
              (Done,
               update_structure_display None
                 (clear_inputs
                    (s\<lparr>accordion_data :=
                         update_dict_at (butlast (split_path (current_selection s)))
                           (AList.delete key_to_delete) (accordion_data s)\<rparr>)
                  \<lparr>current_selection := []\<rparr>)))"

definition list_pop :: "'a list \<Rightarrow> nat \<Rightarrow> 'a list" where
  \<comment> \<open>the list left by \<open>xs.pop(i)\<close> for an index in range\<close>
  "list_pop xs i = take i xs @ drop (Suc i) xs"

definition list_insert :: "'a list \<Rightarrow> nat \<Rightarrow> 'a \<Rightarrow> 'a list" where
  \<comment> \<open>\<open>xs.insert(i, x)\<close>; an index behind the end appends\<close>
  "list_insert xs i x = take i xs @ [x] @ drop i xs"

definition reorder_items :: "dict \<Rightarrow> str list \<Rightarrow> (str \<times> node) list option" where
  \<comment> \<open>\<open>[(k, parent_dict[k]) for k in siblings]\<close>; \<open>None\<close> is a \<open>KeyError\<close>\<close>
  "reorder_items parent_dict siblings =
     those (map (\<lambda>k. map_option (Pair k) (map_of parent_dict k)) siblings)"

definition move_item :: "string \<Rightarrow> state \<Rightarrow> outcome \<times> state" where
  "move_item direction s =
     (if current_selection s = [] then (NoSelection, s)
      else case if_truthy (any_ancestor_locked (locked_paths s) (current_selection s)) of
        Some locked_ancestor \<Rightarrow> (Locked locked_ancestor, s)
      | None \<Rightarrow>
         let parts = split_path (current_selection s); item_key = last parts in
         case get_siblings (accordion_data s) (current_selection s) of
           None \<Rightarrow> (NotFound, s)
         | Some (parent_dict, siblings) \<Rightarrow>
            (case py_index siblings item_key of
               None \<Rightarrow> (NotFound, s)
             | Some idx \<Rightarrow>
                let finish = (\<lambda>new_index.
                      case reorder_items parent_dict
                             (list_insert (list_pop siblings idx) new_index (siblings ! idx)) of
                        None \<Rightarrow> (KeyError, s)
                      | Some reordered \<Rightarrow>
                          (Done,
                           update_structure_display (Some (current_selection s))
                             (s\<lparr>accordion_data :=
                                  update_dict_at (butlast parts) (\<lambda>_. dict_of_items reordered)
                                    (accordion_data s)\<rparr>)))
                in
                if direction = ''up'' then
                  (if idx = 0 then (AlreadyAtBoundary, s) else finish (idx - 1))
                else if direction = ''down'' then
                  (if idx = length siblings - 1 then (AlreadyAtBoundary, s) else finish (idx + 1))
                else (Cancelled, s)))"

definition toggle_lock_selected :: "state \<Rightarrow> outcome \<times> state" where
  "toggle_lock_selected s =
     (if current_selection s = [] then (NoSelection, s)
      else let full_path = current_selection s in
        (Done,
         update_structure_display (Some full_path)
           (if full_path \<in> locked_paths s
            then s\<lparr>locked_paths := locked_paths s - {full_path}\<rparr>
            else s\<lparr>locked_paths := insert full_path (locked_paths s)\<rparr>)))"

definition change_path :: "str option \<Rightarrow> state \<Rightarrow> outcome \<times> state" where
  "change_path new_path s =
     (if current_selection s = [] then (NoSelection, s)
      else case if_truthy (any_ancestor_locked (locked_paths s) (current_selection s)) of
        Some locked_ancestor \<Rightarrow> (Locked locked_ancestor, s)
      | None \<Rightarrow>
         (case if_truthy new_path of
            None \<Rightarrow> (Cancelled, s)
          | Some np \<Rightarrow>
             let new_parts = filter (\<lambda>p. p \<noteq> []) (map strip (split_path np)) in
             if new_parts = [] then (InvalidPath, s)
             else case get_parent_dict_and_key (accordion_data s) (current_selection s) of
               None \<Rightarrow> (SourceNotFound, s)
             | Some (src_parent, src_key) \<Rightarrow>
                (case map_of src_parent src_key of
                   None \<Rightarrow> (KeyError, s)
                 | Some item_copy \<Rightarrow>
                    let src_path = butlast (split_path (current_selection s));
                        removed = update_dict_at src_path (AList.delete src_key) (accordion_data s);
                        restored = update_dict_at src_path (AList.update src_key item_copy) removed
                    in
                    case ensure_parent_path removed new_parts of
                      None \<Rightarrow> (DestinationParentNotFound, s\<lparr>accordion_data := restored\<rparr>)
                    | Some dest_parent \<Rightarrow>
                       let dest_key = last new_parts in
                       if has_key dest_parent dest_key
                       then (DestinationDuplicate, s\<lparr>accordion_data := restored\<rparr>)
                       else
                         (Done,
                          update_structure_display (Some (join_path new_parts))
                            (s\<lparr>accordion_data :=
                                 update_dict_at (butlast new_parts)
                                   (AList.update dest_key item_copy) removed,
                               current_selection := join_path new_parts\<rparr>)))))"

definition add_subtitle :: "(nat \<Rightarrow> bool) \<Rightarrow> str \<Rightarrow> str \<Rightarrow> state \<Rightarrow> outcome \<times> state" where
  "add_subtitle isd title_entry content_text s =
     (let title = strip title_entry;
          content = normalize_universal_bullets isd (strip content_text)
      in
      if title = [] then (EmptyTitle, s)
      else if current_selection s = [] then (NoSelection, s)
      else
        let parent_path =
              (case if_truthy (any_ancestor_locked (locked_paths s) (current_selection s)) of
                 Some locked_ancestor_path \<Rightarrow> locked_ancestor_path
               | None \<Rightarrow> current_selection s)
        in
        case get_parent_dict_and_key (accordion_data s) parent_path of
          None \<Rightarrow> (ParentNotFound, s)
        | Some (parent_dict, parent_key) \<Rightarrow>
           (case map_of parent_dict parent_key of
              None \<Rightarrow> (ParentNotFound, s)
            | Some parent_item \<Rightarrow>
               if has_key (subtitles parent_item) title then (DuplicateTitle, s)
               else
                 (Done,
                  update_structure_display (Some (parent_path @ path_sep @ title))
                    (clear_inputs
                       (s\<lparr>accordion_data :=
                            update_dict_at (split_path parent_path)
                              (AList.update title (Node content (selected_image_path s) []))
                              (accordion_data s)\<rparr>)))))"

section \<open>An example tree\<close>

text \<open>Two top-level items \<open>A\<close> and \<open>C\<close>; \<open>A\<close> has the sub-item \<open>B\<close>.\<close>

definition ex_tree :: dict where
  "ex_tree = [(ord_str ''A'', Node [] [] [(ord_str ''B'', Node [] [] [])]),
              (ord_str ''C'', Node [] [] [])]"

text \<open>One top-level item \<open>A\<close> with an image and some content.\<close>

definition ex_img_tree :: dict where
  "ex_img_tree = [(ord_str ''A'', Node (ord_str ''text'') (ord_str ''a.png'') [])]"

section \<open>Strings, the bullet pattern and the lines of a text\<close>

lemma star_cls_hd: "\<exists>ys. star_cls p s = dropWhile p s # ys"
  by (induction s) auto

lemma star_cls_suffix: "r \<in> set (star_cls p s) \<Longrightarrow> suffix r s"
  by (induction s) (auto simp: suffix_Cons split: if_splits)

lemma plus_cls_suffix: "r \<in> set (plus_cls p s) \<Longrightarrow> suffix r s"
  by (cases s) (auto simp: suffix_Cons dest: star_cls_suffix split: if_splits)

lemma one_cls_suffix: "r \<in> set (one_cls p s) \<Longrightarrow> suffix r s"
  by (cases s) (auto simp: suffix_Cons split: if_splits)

lemma bullet_alt_suffix: "r \<in> set (bullet_alt isd s) \<Longrightarrow> suffix r s"
  unfolding bullet_alt_def
  by (auto dest: one_cls_suffix plus_cls_suffix intro: suffix_order.trans)

lemma bullet_start_regex_suffix: "r \<in> set (bullet_start_regex isd s) \<Longrightarrow> suffix r s"
  unfolding bullet_start_regex_def
  by (auto dest!: star_cls_suffix plus_cls_suffix bullet_alt_suffix intro: suffix_order.trans)

lemma regex_match_suffix: "regex_match isd ln = Some r \<Longrightarrow> suffix r ln"
proof -
  assume "regex_match isd ln = Some r"
  then have "r \<in> set (bullet_start_regex isd ln)"
    unfolding regex_match_def by (cases "bullet_start_regex isd ln") auto
  then show ?thesis by (rule bullet_start_regex_suffix)
qed

lemma regex_match_bullet:
  assumes "is_bullet_char c" "\<not> is_space c" "is_space d"
  shows "regex_match isd (c # d # rest) = Some (dropWhile is_space rest)"
proof -
  obtain ys where ys: "star_cls is_space rest = dropWhile is_space rest # ys"
    using star_cls_hd by blast
  show ?thesis
    using assms by (simp add: regex_match_def bullet_start_regex_def bullet_alt_def ys)
qed

lemma strip_no_lead: "dropWhile is_space (strip s) = strip s"
proof -
  define t where "t = dropWhile is_space s"
  have t: "t = [] \<or> \<not> is_space (hd t)"
    unfolding t_def by (metis hd_dropWhile)
  have split: "t = strip s @ rev (takeWhile is_space (rev t))"
    unfolding strip_def t_def
    by (metis rev_append rev_rev_ident takeWhile_dropWhile_id)
  show ?thesis
  proof (cases "strip s")
    case Nil then show ?thesis by simp
  next
    case (Cons a as)
    with split have "t = a # as @ rev (takeWhile is_space (rev t))" by simp
    then have "hd t = a" "t \<noteq> []" by (metis list.sel(1), metis list.distinct(1))
    with t have "\<not> is_space a" by auto
    with Cons show ?thesis by simp
  qed
qed

lemma strip_idem: "strip (strip s) = strip s"
proof -
  have "dropWhile is_space (rev (strip s)) = rev (strip s)"
    unfolding strip_def by (simp add: dropWhile_idem)
  then show ?thesis
    by (metis strip_def strip_no_lead rev_rev_ident)
qed

lemma set_strip: "set (strip s) \<subseteq> set s"
  unfolding strip_def by (metis set_dropWhileD set_rev subsetI)

lemma normalize_line_idem: "normalize_line isd (normalize_line isd ln) = normalize_line isd ln"
proof (cases "regex_match isd ln")
  case None
  then show ?thesis by (simp add: normalize_line_def)
next
  case (Some rest)
  have "regex_match isd (8226 # 32 # strip rest) = Some (dropWhile is_space (strip rest))"
    by (rule regex_match_bullet) (simp_all add: is_bullet_char_def is_space_def)
  then show ?thesis using Some
    by (simp add: normalize_line_def bullet_prefix_def strip_no_lead strip_idem)
qed

lemma normalize_line_no_nl: "10 \<notin> set ln \<Longrightarrow> 10 \<notin> set (normalize_line isd ln)"
proof (cases "regex_match isd ln")
  case None
  then show "10 \<notin> set ln \<Longrightarrow> ?thesis" by (simp add: normalize_line_def)
next
  case (Some rest)
  assume "10 \<notin> set ln"
  moreover have "set rest \<subseteq> set ln" using regex_match_suffix[OF Some] by (rule set_mono_suffix)
  ultimately have "10 \<notin> set (strip rest)" using set_strip by blast
  then show ?thesis using Some by (simp add: normalize_line_def bullet_prefix_def)
qed

lemma split_str_nl_plain: "10 \<notin> set l \<Longrightarrow> split_str nl acc l = [acc @ l]"
  by (induction l arbitrary: acc) (auto simp: nl_def)

lemma split_str_nl_app:
  "10 \<notin> set l \<Longrightarrow> split_str nl acc (l @ 10 # r) = (acc @ l) # split_str nl [] r"
  by (induction l arbitrary: acc) (auto simp: nl_def)

lemma split_join_lines:
  "ls \<noteq> [] \<Longrightarrow> \<forall>l \<in> set ls. 10 \<notin> set l \<Longrightarrow> split_lines (join_lines ls) = ls"
proof (induction ls rule: induct_list012)
  case 1 then show ?case by simp
next
  case (2 x) then show ?case by (simp add: split_lines_def join_lines_def split_str_nl_plain)
next
  case (3 x y ys)
  then have "split_str nl [] (join_str nl (y # ys)) = y # ys"
    by (simp add: split_lines_def join_lines_def)
  with 3(3,4) show ?case
    using split_str_nl_app[of x "[]" "join_str nl (y # ys)"]
    by (simp add: split_lines_def join_lines_def nl_def)
qed

lemma split_str_nl_lines:
  "10 \<notin> set acc \<Longrightarrow> \<forall>l \<in> set (split_str nl acc s). 10 \<notin> set l"
proof (induction s arbitrary: acc)
  case Nil
  then show ?case by simp
next
  case (Cons c s)
  have a: "\<forall>l \<in> set (split_str nl [] s). 10 \<notin> set l" by (rule Cons.IH) simp
  show ?case
  proof (cases "c = 10")
    case True
    with a Cons.prems show ?thesis by (simp add: nl_def)
  next
    case False
    with Cons.prems have "10 \<notin> set (acc @ [c])" by simp
    from Cons.IH[OF this] False show ?thesis by (simp add: nl_def)
  qed
qed

lemma split_str_nonempty: "split_str sep acc s \<noteq> []"
  by (induction sep acc s rule: split_str.induct) auto

text \<open>
  Claim C3. For every input text, normalizing the bullets twice gives the same text as
  normalizing once. A rewritten line is the bullet, one space and a stripped remainder;
  the pattern matches it again, up to exactly that space, and rebuilds the same line. A
  line that did not match is passed through and does not match the second time either.
\<close>

theorem normalize_idem:
  "normalize_universal_bullets isd (normalize_universal_bullets isd x) = normalize_universal_bullets isd x"
proof -
  let ?ls = "map (normalize_line isd) (split_lines x)"
  have ne: "?ls \<noteq> []" by (simp add: split_lines_def split_str_nonempty)
  have "\<forall>l \<in> set (split_lines x). 10 \<notin> set l"
    unfolding split_lines_def using split_str_nl_lines[of "[]"] by auto
  then have nonl: "\<forall>l \<in> set ?ls. 10 \<notin> set l"
    using normalize_line_no_nl by auto
  have "split_lines (join_lines ?ls) = ?ls" using ne nonl by (rule split_join_lines)
  then show ?thesis
    by (simp add: normalize_universal_bullets_def normalize_line_idem comp_def)
qed


lemma digit_alt_nodot:
  assumes "46 \<notin> set s"
  shows "concat (map (one_cls is_dot) (plus_cls isd s)) = []"
proof -
  have "one_cls is_dot r = []" if "r \<in> set (plus_cls isd s)" for r
  proof -
    have "set r \<subseteq> set s" using plus_cls_suffix[OF that] by (rule set_mono_suffix)
    with assms have "46 \<notin> set r" by blast
    then show ?thesis by (cases r) (auto simp: is_dot_def)
  qed
  then show ?thesis by simp
qed

lemma regex_match_none:
  assumes "\<not> is_space c" "\<not> is_bullet_char c" "46 \<notin> set (c # cs)"
  shows "regex_match isd (c # cs) = None"
proof -
  have "bullet_alt isd (c # cs) = []"
    unfolding bullet_alt_def digit_alt_nodot[OF assms(3)] using assms(2) by simp
  with assms(1) show ?thesis
    by (simp add: regex_match_def bullet_start_regex_def)
qed

text \<open>
  Claim C8. The three-line example text normalizes to two bullet lines and the note line,
  and the normalized text converts to one list with the items "buy milk" and "buy eggs"
  followed by one paragraph "Note: also bread" (the markup that \<open>content_to_html\<close>
  emits for these blocks), whatever the table of decimal digits is.
\<close>

theorem example_normalize_and_html:
  "normalize_universal_bullets isd
     (ord_str ''- buy milk'' @ nl @ ord_str ''* buy eggs'' @ nl @ ord_str ''Note: also bread'')
   = bullet_prefix @ ord_str ''buy milk'' @ nl @ bullet_prefix @ ord_str ''buy eggs'' @ nl
       @ ord_str ''Note: also bread''
   \<and> content_to_html
       (bullet_prefix @ ord_str ''buy milk'' @ nl @ bullet_prefix @ ord_str ''buy eggs'' @ nl
          @ ord_str ''Note: also bread'')
   = ord_str ''<ul>'' @ nl @ ord_str ''<li>buy milk</li>'' @ nl @ ord_str ''<li>buy eggs</li>'' @ nl
       @ ord_str ''</ul>'' @ nl @ ord_str ''<p>Note: also bread</p>''"
proof
  have l1: "regex_match isd (45 # 32 # ord_str ''buy milk'') = Some (dropWhile is_space (ord_str ''buy milk''))"
    by (rule regex_match_bullet) (simp_all add: is_bullet_char_def is_space_def)
  have l2: "regex_match isd (42 # 32 # ord_str ''buy eggs'') = Some (dropWhile is_space (ord_str ''buy eggs''))"
    by (rule regex_match_bullet) (simp_all add: is_bullet_char_def is_space_def)
  have l3: "regex_match isd (78 # ord_str ''ote: also bread'') = None"
    by (rule regex_match_none) (simp_all add: is_bullet_char_def is_space_def ord_str_def)
  show "normalize_universal_bullets isd
     (ord_str ''- buy milk'' @ nl @ ord_str ''* buy eggs'' @ nl @ ord_str ''Note: also bread'')
   = bullet_prefix @ ord_str ''buy milk'' @ nl @ bullet_prefix @ ord_str ''buy eggs'' @ nl
       @ ord_str ''Note: also bread''"
    using l1 l2 l3
    by (simp add: normalize_universal_bullets_def split_lines_def join_lines_def nl_def
          ord_str_def normalize_line_def bullet_prefix_def strip_def is_space_def)
  show "content_to_html
       (bullet_prefix @ ord_str ''buy milk'' @ nl @ bullet_prefix @ ord_str ''buy eggs'' @ nl
          @ ord_str ''Note: also bread'')
   = ord_str ''<ul>'' @ nl @ ord_str ''<li>buy milk</li>'' @ nl @ ord_str ''<li>buy eggs</li>'' @ nl
       @ ord_str ''</ul>'' @ nl @ ord_str ''<p>Note: also bread</p>''"
    by (simp add: content_to_html_def split_lines_def join_lines_def nl_def html_step_def
          flush_list_def ord_str_def bullet_prefix_def strip_def is_space_def)
qed

section \<open>Locks\<close>

lemmas ev = ord_str_def split_path_def join_path_def path_sep_def any_ancestor_locked_def
  if_truthy_def get_parent_dict_and_key_def get_item_data_def get_siblings_def has_key_def
  ensure_parent_path_def update_structure_display_def clear_inputs_def Let_def

lemma locked_paths_usd [simp]: "locked_paths (update_structure_display p s) = locked_paths s"
  by (simp add: update_structure_display_def split: option.splits)

lemma accordion_data_usd [simp]: "accordion_data (update_structure_display p s) = accordion_data s"
  by (simp add: update_structure_display_def split: option.splits)

lemma any_ancestor_locked_Some:
  "any_ancestor_locked L p = Some g \<longleftrightarrow>
     (\<exists>i < length (split_path p). g = join_path (take (Suc i) (split_path p)) \<and> g \<in> L
        \<and> (\<forall>j < i. join_path (take (Suc j) (split_path p)) \<notin> L))"
  unfolding any_ancestor_locked_def Let_def find_Some_iff
  by (auto simp: )

lemma any_ancestor_locked_None:
  "any_ancestor_locked L p = None \<longleftrightarrow>
     (\<forall>i < length (split_path p). join_path (take (Suc i) (split_path p)) \<notin> L)"
  unfolding any_ancestor_locked_def Let_def find_None_iff
  by (auto simp: )

text \<open>
  Claim C1, as amended. Delete, save (rename) and change-path never touch the lock set:
  whatever they do to the tree, the lock set afterwards is the lock set before. Entries
  equal to or prefixed by the old path are neither removed nor rewritten.
\<close>

theorem lock_set_never_migrated:
  "locked_paths (snd (delete_item confirm s)) = locked_paths s
   \<and> locked_paths (snd (save_changes isd title_entry content_text s)) = locked_paths s
   \<and> locked_paths (snd (change_path new_path s)) = locked_paths s"
proof (intro conjI)
  show "locked_paths (snd (delete_item confirm s)) = locked_paths s"
    by (simp add: delete_item_def clear_inputs_def split: option.splits prod.splits)
  show "locked_paths (snd (save_changes isd title_entry content_text s)) = locked_paths s"
    by (simp add: save_changes_def Let_def split: option.splits prod.splits)
  show "locked_paths (snd (change_path new_path s)) = locked_paths s"
    by (simp add: change_path_def Let_def split: option.splits prod.splits)
qed

text \<open>
  Claim C1, as stated, fails. With only the sub-item \<open>A > B\<close> locked, deleting \<open>A\<close> is
  allowed (neither \<open>A\<close> nor an ancestor is locked) and succeeds; the entry \<open>A > B\<close>, which
  has the deleted path as prefix, is still in the lock set and no longer resolves.
\<close>

theorem delete_leaves_stale_lock:
  "fst (delete_item True \<lparr>accordion_data = ex_tree, current_selection = ord_str ''A'',
          selected_image_path = [], locked_paths = {ord_str ''A > B''}\<rparr>) = Done
   \<and> ord_str ''A > B'' \<in> locked_paths (snd (delete_item True
          \<lparr>accordion_data = ex_tree, current_selection = ord_str ''A'',
           selected_image_path = [], locked_paths = {ord_str ''A > B''}\<rparr>))
   \<and> get_item_data (accordion_data (snd (delete_item True
          \<lparr>accordion_data = ex_tree, current_selection = ord_str ''A'',
           selected_image_path = [], locked_paths = {ord_str ''A > B''}\<rparr>))) (ord_str ''A > B'') = None"
  by (simp add: delete_item_def ex_tree_def ev)

text \<open>
  Claim C2. A change-path of \<open>A\<close> to \<open>X > Y\<close> fails because the parent \<open>X\<close> does not
  exist. The item has already been taken out of its dictionary by then, and putting it
  back adds it behind its sibling \<open>C\<close>: the failed call has changed the sibling order.
\<close>

theorem relocate_failure_moves_node_to_end:
  "change_path (Some (ord_str ''X > Y''))
     \<lparr>accordion_data = ex_tree, current_selection = ord_str ''A'',
      selected_image_path = [], locked_paths = {}\<rparr>
   = (DestinationParentNotFound,
      \<lparr>accordion_data = [(ord_str ''C'', Node [] [] []),
                          (ord_str ''A'', Node [] [] [(ord_str ''B'', Node [] [] [])])],
       current_selection = ord_str ''A'', selected_image_path = [], locked_paths = {}\<rparr>)"
  by (simp add: change_path_def ex_tree_def ev strip_def is_space_def)


lemma locked_guard:
  assumes "[] \<notin> L" and "i < length (split_path p)"
    and "join_path (take (Suc i) (split_path p)) \<in> L"
  shows "\<exists>k\<le>i. join_path (take (Suc k) (split_path p)) \<in> L
           \<and> (\<forall>j<k. join_path (take (Suc j) (split_path p)) \<notin> L)
           \<and> if_truthy (any_ancestor_locked L p) = Some (join_path (take (Suc k) (split_path p)))"
proof -
  have "any_ancestor_locked L p \<noteq> None"
    using assms(2,3) by (auto simp: any_ancestor_locked_None)
  then obtain g where g: "any_ancestor_locked L p = Some g" by blast
  then obtain k where k: "k < length (split_path p)" "g = join_path (take (Suc k) (split_path p))"
      "g \<in> L" "\<forall>j<k. join_path (take (Suc j) (split_path p)) \<notin> L"
    unfolding any_ancestor_locked_Some by blast
  have "k \<le> i" using k(4) assms(3) by (meson not_le_imp_less)
  moreover have "g \<noteq> []" using k(3) assms(1) by blast
  ultimately show ?thesis using g k by (auto simp: if_truthy_def)
qed

text \<open>
  Claim C5. When the selected path or one of its ancestors (a prefix of its parts) is in
  the lock set, save, delete, move and change-path all stop with \<open>Locked\<close>, carrying the
  shortest locked prefix, and return the state as it was. The lock set holds paths, and
  the empty string is not one.
\<close>

theorem locked_rejects_mutation:
  assumes "current_selection s \<noteq> []" and "[] \<notin> locked_paths s"
    and "i < length (split_path (current_selection s))"
    and "join_path (take (Suc i) (split_path (current_selection s))) \<in> locked_paths s"
  shows "\<exists>k\<le>i. join_path (take (Suc k) (split_path (current_selection s))) \<in> locked_paths s
           \<and> (\<forall>j<k. join_path (take (Suc j) (split_path (current_selection s))) \<notin> locked_paths s)
           \<and> save_changes isd title_entry content_text s
               = (Locked (join_path (take (Suc k) (split_path (current_selection s)))), s)
           \<and> delete_item confirm s
               = (Locked (join_path (take (Suc k) (split_path (current_selection s)))), s)
           \<and> move_item direction s
               = (Locked (join_path (take (Suc k) (split_path (current_selection s)))), s)
           \<and> change_path new_path s
               = (Locked (join_path (take (Suc k) (split_path (current_selection s)))), s)"
proof -
  obtain k where k: "k \<le> i"
      "join_path (take (Suc k) (split_path (current_selection s))) \<in> locked_paths s"
      "\<forall>j<k. join_path (take (Suc j) (split_path (current_selection s))) \<notin> locked_paths s"
      "if_truthy (any_ancestor_locked (locked_paths s) (current_selection s))
         = Some (join_path (take (Suc k) (split_path (current_selection s))))"
    using locked_guard[OF assms(2,3,4)] by blast
  have "save_changes isd title_entry content_text s
               = (Locked (join_path (take (Suc k) (split_path (current_selection s)))), s)"
    using assms(1) k(4) by (simp add: save_changes_def)
  moreover have "delete_item confirm s
               = (Locked (join_path (take (Suc k) (split_path (current_selection s)))), s)"
    using assms(1) k(4) by (simp add: delete_item_def)
  moreover have "move_item direction s
               = (Locked (join_path (take (Suc k) (split_path (current_selection s)))), s)"
    using assms(1) k(4) by (simp add: move_item_def)
  moreover have "change_path new_path s
               = (Locked (join_path (take (Suc k) (split_path (current_selection s)))), s)"
    using assms(1) k(4) by (simp add: change_path_def)
  ultimately show ?thesis using k(1,2,3) by blast
qed

theorem locked_rejects_mutation_witness:
  "\<exists>k\<le>0. join_path (take (Suc k) (split_path (ord_str ''A > B''))) \<in> {ord_str ''A''}
      \<and> (\<forall>j<k. join_path (take (Suc j) (split_path (ord_str ''A > B''))) \<notin> {ord_str ''A''})
      \<and> save_changes (\<lambda>c. False) (ord_str ''T'') [] 
           \<lparr>accordion_data = ex_tree, current_selection = ord_str ''A > B'',
            selected_image_path = [], locked_paths = {ord_str ''A''}\<rparr>
          = (Locked (join_path (take (Suc k) (split_path (ord_str ''A > B'')))),
             \<lparr>accordion_data = ex_tree, current_selection = ord_str ''A > B'',
              selected_image_path = [], locked_paths = {ord_str ''A''}\<rparr>)
      \<and> delete_item True
           \<lparr>accordion_data = ex_tree, current_selection = ord_str ''A > B'',
            selected_image_path = [], locked_paths = {ord_str ''A''}\<rparr>
          = (Locked (join_path (take (Suc k) (split_path (ord_str ''A > B'')))),
             \<lparr>accordion_data = ex_tree, current_selection = ord_str ''A > B'',
              selected_image_path = [], locked_paths = {ord_str ''A''}\<rparr>)
      \<and> move_item ''up''
           \<lparr>accordion_data = ex_tree, current_selection = ord_str ''A > B'',
            selected_image_path = [], locked_paths = {ord_str ''A''}\<rparr>
          = (Locked (join_path (take (Suc k) (split_path (ord_str ''A > B'')))),
             \<lparr>accordion_data = ex_tree, current_selection = ord_str ''A > B'',
              selected_image_path = [], locked_paths = {ord_str ''A''}\<rparr>)
      \<and> change_path (Some (ord_str ''C > B''))
           \<lparr>accordion_data = ex_tree, current_selection = ord_str ''A > B'',
            selected_image_path = [], locked_paths = {ord_str ''A''}\<rparr>
          = (Locked (join_path (take (Suc k) (split_path (ord_str ''A > B'')))),
             \<lparr>accordion_data = ex_tree, current_selection = ord_str ''A > B'',
              selected_image_path = [], locked_paths = {ord_str ''A''}\<rparr>)"
  using locked_rejects_mutation[of
      "\<lparr>accordion_data = ex_tree, current_selection = ord_str ''A > B'',
            selected_image_path = [], locked_paths = {ord_str ''A''}\<rparr>" 0
      "\<lambda>c. False" "ord_str ''T''" "[]" True "''up''" "Some (ord_str ''C > B'')"]
  by (simp add: ord_str_def split_path_def join_path_def path_sep_def)

text \<open>
  Only \<open>toggle_lock_selected\<close> writes the lock set, and it adds the selection only when
  there is one: the empty string never gets in.
\<close>

lemma toggle_lock_keeps_paths_nonempty:
  "[] \<notin> locked_paths s \<Longrightarrow> [] \<notin> locked_paths (snd (toggle_lock_selected s))"
  by (auto simp: toggle_lock_selected_def Let_def)

section \<open>Dictionaries, paths into the tree, and the rebuilt sibling list\<close>

lemma update_new: "k \<notin> set (map fst d) \<Longrightarrow> AList.update k v d = d @ [(k, v)]"
  by (induction d) auto

lemma foldl_update_distinct:
  "distinct (map fst (acc @ items)) \<Longrightarrow>
   foldl (\<lambda>d kv. AList.update (fst kv) (snd kv) d) acc items = acc @ items"
proof (induction items arbitrary: acc)
  case Nil
  then show ?case by simp
next
  case (Cons kv items)
  have "fst kv \<notin> set (map fst acc)" using Cons.prems by auto
  then have "AList.update (fst kv) (snd kv) acc = acc @ [kv]" by (simp add: update_new)
  moreover have "distinct (map fst ((acc @ [kv]) @ items))" using Cons.prems by simp
  ultimately show ?case using Cons.IH[of "acc @ [kv]"] by simp
qed

lemma dict_of_items_distinct: "distinct (map fst items) \<Longrightarrow> dict_of_items items = items"
  unfolding dict_of_items_def using foldl_update_distinct[of "[]" items] by simp

lemma descend_update_same:
  "descend d ps = Some x \<Longrightarrow> descend (update_dict_at ps f d) ps = Some (f x)"
proof (induction ps arbitrary: d)
  case Nil
  then show ?case by simp
next
  case (Cons p ps)
  then show ?case by (auto simp: update_conv' split: option.splits)
qed

lemma descend_append:
  "descend d (xs @ ys) = (case descend d xs of None \<Rightarrow> None | Some d' \<Rightarrow> descend d' ys)"
  by (induction xs arbitrary: d) (auto split: option.splits)

lemma update_dict_at_comp:
  "update_dict_at ps g (update_dict_at ps f d) = update_dict_at ps (\<lambda>x. g (f x)) d"
proof (induction ps arbitrary: d)
  case Nil
  then show ?case by simp
next
  case (Cons p ps)
  then show ?case by (auto simp: update_conv' split: option.splits)
qed

lemma those_map_Some: "those (map (\<lambda>x. Some (f x)) xs) = Some (map f xs)"
  by (induction xs) auto

lemma index_update_distinct:
  "distinct ks \<Longrightarrow> old \<in> set ks \<Longrightarrow>
   ks[length (takeWhile (\<lambda>y. y \<noteq> old) ks) := new] = map (\<lambda>k. if k = old then new else k) ks"
proof (induction ks)
  case Nil
  then show ?case by simp
next
  case (Cons k ks)
  show ?case
  proof (cases "k = old")
    case True
    then have "old \<notin> set ks" using Cons.prems by auto
    then have "map (\<lambda>k. if k = old then new else k) ks = ks" by (induction ks) auto
    with True show ?thesis by simp
  next
    case False
    with Cons show ?thesis by auto
  qed
qed

lemma rename_items_distinct:
  assumes "distinct (map fst parent)" and "new \<notin> set (map fst parent)"
  shows "rename_items (AList.update old item parent)
           (map (\<lambda>k. if k = old then new else k) (map fst parent)) new item
         = Some (map (\<lambda>kv. if fst kv = old then (new, item) else kv) parent)"
proof -
  have "map (\<lambda>k. if k = new then Some (new, item)
                  else map_option (Pair k) (map_of (AList.update old item parent) k))
            (map (\<lambda>k. if k = old then new else k) (map fst parent))
        = map (\<lambda>kv. Some (if fst kv = old then (new, item) else kv)) parent"
  proof (simp only: map_map comp_def, rule map_cong[OF refl])
    fix kv assume kv: "kv \<in> set parent"
    obtain k v where [simp]: "kv = (k, v)" by (cases kv)
    have "k \<noteq> new" using kv assms(2) by force
    moreover have "map_of parent k = Some v" using kv assms(1) by simp
    ultimately show "(if (if fst kv = old then new else fst kv) = new then Some (new, item)
           else map_option (Pair (if fst kv = old then new else fst kv))
                  (map_of (AList.update old item parent) (if fst kv = old then new else fst kv)))
          = Some (if fst kv = old then (new, item) else kv)"
      by (simp add: update_conv')
  qed
  then show ?thesis unfolding rename_items_def by (simp only: those_map_Some)
qed

lemma reorder_items_sub:
  assumes "distinct (map fst parent)" and "set ys \<subseteq> set parent"
  shows "reorder_items parent (map fst ys) = Some ys"
proof -
  have "map (\<lambda>k. map_option (Pair k) (map_of parent k)) (map fst ys) = map (\<lambda>kv. Some kv) ys"
  proof (simp only: map_map comp_def, rule map_cong[OF refl])
    fix kv assume "kv \<in> set ys"
    then have "kv \<in> set parent" using assms(2) by blast
    then have "map_of parent (fst kv) = Some (snd kv)" using assms(1) by simp
    then show "map_option (Pair (fst kv)) (map_of parent (fst kv)) = Some kv" by simp
  qed
  then have "reorder_items parent (map fst ys) = those (map (\<lambda>kv. Some kv) ys)"
    unfolding reorder_items_def by (simp only:)
  also have "\<dots> = Some (map (\<lambda>kv. kv) ys)" by (rule those_map_Some)
  finally show ?thesis by simp
qed

lemma split_adjacent:
  assumes "Suc i < length xs"
  shows "\<exists>a b. xs = a @ xs ! i # xs ! Suc i # b \<and> length a = i"
proof -
  have "xs = take i xs @ xs ! i # drop (Suc i) xs"
    using assms by (simp add: id_take_nth_drop)
  moreover have "drop (Suc i) xs = xs ! Suc i # drop (Suc (Suc i)) xs"
    using assms by (simp add: Cons_nth_drop_Suc)
  ultimately have "xs = take i xs @ xs ! i # xs ! Suc i # drop (Suc (Suc i)) xs" by simp
  moreover have "length (take i xs) = i" using assms by simp
  ultimately show ?thesis by blast
qed

lemma pop_insert_down:
  assumes "Suc i < length xs"
  shows "list_insert (list_pop xs i) (Suc i) (xs ! i) = xs[i := xs ! Suc i, Suc i := xs ! i]"
proof -
  obtain a b where ab: "xs = a @ xs ! i # xs ! Suc i # b" "length a = i"
    using split_adjacent[OF assms] by blast
  define x y where "x = xs ! i" and "y = xs ! Suc i"
  have xs: "xs = a @ x # y # b" using ab(1) x_def y_def by simp
  show ?thesis
    unfolding x_def[symmetric] y_def[symmetric]
    by (subst (1 2) xs) (simp add: list_insert_def list_pop_def ab(2) list_update_append)
qed

lemma pop_insert_up:
  assumes "Suc i < length xs"
  shows "list_insert (list_pop xs (Suc i)) i (xs ! Suc i) = xs[i := xs ! Suc i, Suc i := xs ! i]"
proof -
  obtain a b where ab: "xs = a @ xs ! i # xs ! Suc i # b" "length a = i"
    using split_adjacent[OF assms] by blast
  define x y where "x = xs ! i" and "y = xs ! Suc i"
  have xs: "xs = a @ x # y # b" using ab(1) x_def y_def by simp
  show ?thesis
    unfolding x_def[symmetric] y_def[symmetric]
    by (subst (1 2) xs) (simp add: list_insert_def list_pop_def ab(2) list_update_append)
qed


lemma split_str_nonempty': "split_path p \<noteq> []"
  by (simp add: split_path_def split_str_nonempty)

lemma gpk_SomeD:
  assumes "get_parent_dict_and_key t p = Some (parent, key)"
  shows "p \<noteq> []" and "descend t (butlast (split_path p)) = Some parent"
    and "key = last (split_path p)" and "key \<in> set (map fst parent)"
  using assms
  by (auto simp: get_parent_dict_and_key_def Let_def has_key_def split: if_splits option.splits)

lemma gpk_SomeI:
  assumes "p \<noteq> []" and "descend t (butlast (split_path p)) = Some parent"
    and "last (split_path p) \<in> set (map fst parent)"
  shows "get_parent_dict_and_key t p = Some (parent, last (split_path p))"
  using assms by (simp add: get_parent_dict_and_key_def Let_def has_key_def)

lemma map_of_key_Some: "k \<in> set (map fst d) \<Longrightarrow> \<exists>v. map_of d k = Some v"
  by (metis image_set domIff dom_map_of_conv_image_fst not_Some_eq)

lemma distinct_rename_keys:
  "distinct ks \<Longrightarrow> new \<notin> set ks \<Longrightarrow> distinct (map (\<lambda>k. if k = old then new else k) ks)"
  by (induction ks) auto

lemma map_replace_nth:
  assumes "distinct (map fst P)" and "k < length P" and "fst (P ! k) = old"
  shows "map (\<lambda>kv. if fst kv = old then e else kv) P = P[k := e]"
proof (rule nth_equalityI)
  show "length (map (\<lambda>kv. if fst kv = old then e else kv) P) = length (P[k := e])" by simp
next
  fix j assume "j < length (map (\<lambda>kv. if fst kv = old then e else kv) P)"
  then have j: "j < length P" by simp
  show "map (\<lambda>kv. if fst kv = old then e else kv) P ! j = P[k := e] ! j"
  proof (cases "j = k")
    case True
    with assms(2,3) show ?thesis by simp
  next
    case False
    have "map fst P ! j \<noteq> map fst P ! k"
      using assms(1,2) j False nth_eq_iff_index_eq[of "map fst P" j k] by simp
    then have "fst (P ! j) \<noteq> old" using assms(2,3) j by simp
    with j False show ?thesis by simp
  qed
qed

lemma py_index_distinct:
  assumes "distinct ks" and "i < length ks"
  shows "py_index ks (ks ! i) = Some i"
proof -
  have "takeWhile (\<lambda>y. y \<noteq> ks ! i) ks = take i ks"
  proof (rule takeWhile_eq_take_P_nth)
    fix j assume "j < i" "j < length ks"
    then show "ks ! j \<noteq> ks ! i" using assms by (simp add: nth_eq_iff_index_eq)
  qed simp
  then show ?thesis using assms(2) by (simp add: py_index_def)
qed

lemma py_index_in:
  "x \<in> set xs \<Longrightarrow> py_index xs x = Some (length (takeWhile (\<lambda>y. y \<noteq> x) xs))"
  by (simp add: py_index_def)

text \<open>What \<open>save_changes\<close> does once its checks have passed, with and without a new title.\<close>

lemma save_changes_rename:
  assumes sel: "current_selection s \<noteq> []"
    and unlocked: "if_truthy (any_ancestor_locked (locked_paths s) (current_selection s)) = None"
    and res: "get_parent_dict_and_key (accordion_data s) (current_selection s) = Some (parent, old_key)"
    and item: "map_of parent old_key = Some item0"
    and dist: "distinct (map fst parent)"
    and nt: "strip title_entry \<noteq> []" "strip title_entry \<noteq> old_key"
            "\<not> has_key parent (strip title_entry)"
  shows "fst (save_changes isd title_entry content_text s) = Done
       \<and> accordion_data (snd (save_changes isd title_entry content_text s))
         = update_dict_at (butlast (split_path (current_selection s)))
             (\<lambda>_. map (\<lambda>kv. if fst kv = old_key
                              then (strip title_entry,
                                    Node (normalize_universal_bullets isd (strip content_text))
                                         (if selected_image_path s \<noteq> [] then selected_image_path s
                                          else image_path item0)
                                         (subtitles item0))
                              else kv) parent)
             (accordion_data s)"
proof -
  define new where "new = strip title_entry"
  define item where "item = Node (normalize_universal_bullets isd (strip content_text))
        (if selected_image_path s \<noteq> [] then selected_image_path s else image_path item0)
        (subtitles item0)"
  define R where "R = map (\<lambda>kv. if fst kv = old_key then (new, item) else kv) parent"
  have old_in: "old_key \<in> set (map fst parent)" using gpk_SomeD(4)[OF res] .
  have new_notin: "new \<notin> set (map fst parent)" using nt(3) by (simp add: has_key_def new_def)
  have keys: "map fst (AList.update old_key item parent) = map fst parent"
    using old_in by (simp add: update_keys)
  have idx: "py_index (map fst parent) old_key
               = Some (length (takeWhile (\<lambda>y. y \<noteq> old_key) (map fst parent)))"
    using old_in by (rule py_index_in)
  have upd: "(map fst parent)[length (takeWhile (\<lambda>y. y \<noteq> old_key) (map fst parent)) := new]
               = map (\<lambda>k. if k = old_key then new else k) (map fst parent)"
    using dist old_in by (rule index_update_distinct)
  have ren: "rename_items (AList.update old_key item parent)
               (map (\<lambda>k. if k = old_key then new else k) (map fst parent)) new item = Some R"
    unfolding R_def using dist new_notin by (rule rename_items_distinct)
  then have ren': "rename_items (AList.update old_key item parent)
               (map ((\<lambda>k. if k = old_key then new else k) \<circ> fst) parent) new item = Some R"
    by simp
  have "map fst R = map (\<lambda>k. if k = old_key then new else k) (map fst parent)"
    unfolding R_def by (simp add: comp_def if_distrib cong: if_cong)
  then have "distinct (map fst R)" using distinct_rename_keys[OF dist new_notin] by simp
  then have doi: "dict_of_items R = R" by (rule dict_of_items_distinct)
  have "save_changes isd title_entry content_text s =
      (Done, update_structure_display
         (Some (join_path ((split_path (current_selection s))
                  [length (split_path (current_selection s)) - 1 := new])))
         (s\<lparr>accordion_data := update_dict_at (butlast (split_path (current_selection s)))
                                 (\<lambda>_. R) (accordion_data s),
            current_selection := join_path ((split_path (current_selection s))
                  [length (split_path (current_selection s)) - 1 := new])\<rparr>))"
    using sel unlocked res item nt
    by (simp add: save_changes_def Let_def new_def[symmetric] item_def[symmetric]
          keys idx upd ren' doi)
  then show ?thesis unfolding R_def new_def item_def by simp
qed

lemma save_changes_same_title:
  assumes sel: "current_selection s \<noteq> []"
    and unlocked: "if_truthy (any_ancestor_locked (locked_paths s) (current_selection s)) = None"
    and res: "get_parent_dict_and_key (accordion_data s) (current_selection s) = Some (parent, old_key)"
    and item: "map_of parent old_key = Some item0"
    and nt: "strip title_entry = old_key" "old_key \<noteq> []"
  shows "fst (save_changes isd title_entry content_text s) = Done
       \<and> accordion_data (snd (save_changes isd title_entry content_text s))
         = update_dict_at (butlast (split_path (current_selection s)))
             (\<lambda>_. AList.update old_key
                     (Node (normalize_universal_bullets isd (strip content_text))
                           (if selected_image_path s \<noteq> [] then selected_image_path s
                            else image_path item0)
                           (subtitles item0)) parent)
             (accordion_data s)"
  using sel unlocked res item nt by (simp add: save_changes_def Let_def)

section \<open>Saving an item\<close>

lemma map_of_renamed:
  "new \<notin> set (map fst P) \<Longrightarrow> old \<in> set (map fst P) \<Longrightarrow>
   map_of (map (\<lambda>kv. if fst kv = old then (new, e) else kv) P) new = Some e"
  by (induction P) auto

text \<open>
  Claim C4. When the selected item is the \<open>k\<close>-th entry of its parent dictionary and the
  save gives it a new title that is free among its siblings, the save succeeds and the
  parent dictionary afterwards is the old one with entry \<open>k\<close> replaced: the renamed item
  (with its subtitles) sits at index \<open>k\<close>, every other entry is where it was and
  unchanged. The parent dictionary has distinct keys, as every Python dictionary has.
\<close>

theorem rename_keeps_position:
  assumes "current_selection s \<noteq> []"
    and "if_truthy (any_ancestor_locked (locked_paths s) (current_selection s)) = None"
    and "get_parent_dict_and_key (accordion_data s) (current_selection s) = Some (parent, old_key)"
    and "distinct (map fst parent)"
    and "k < length parent" and "fst (parent ! k) = old_key"
    and "strip title_entry \<noteq> []" and "strip title_entry \<noteq> old_key"
    and "\<not> has_key parent (strip title_entry)"
  shows "fst (save_changes isd title_entry content_text s) = Done
       \<and> descend (accordion_data (snd (save_changes isd title_entry content_text s)))
                  (butlast (split_path (current_selection s)))
         = Some (parent[k := (strip title_entry,
                              Node (normalize_universal_bullets isd (strip content_text))
                                   (if selected_image_path s \<noteq> [] then selected_image_path s
                                    else image_path (snd (parent ! k)))
                                   (subtitles (snd (parent ! k))))])"
proof -
  have "parent ! k \<in> set parent" using assms(5) by simp
  then have item: "map_of parent old_key = Some (snd (parent ! k))"
    using assms(4,6) by (metis map_of_is_SomeI prod.collapse)
  have d: "descend (accordion_data s) (butlast (split_path (current_selection s))) = Some parent"
    using gpk_SomeD(2)[OF assms(3)] .
  show ?thesis
    using save_changes_rename[OF assms(1,2,3) item assms(4,7,8,9), of isd content_text]
      descend_update_same[OF d] map_replace_nth[OF assms(4,5,6)]
    by simp
qed

theorem rename_keeps_position_witness:
  "fst (save_changes (\<lambda>c. False) (ord_str ''Q'') []
         \<lparr>accordion_data = ex_tree, current_selection = ord_str ''A'',
          selected_image_path = [], locked_paths = {}\<rparr>) = Done
   \<and> descend (accordion_data (snd (save_changes (\<lambda>c. False) (ord_str ''Q'') []
         \<lparr>accordion_data = ex_tree, current_selection = ord_str ''A'',
          selected_image_path = [], locked_paths = {}\<rparr>))) []
     = Some [(ord_str ''Q'', Node [] [] [(ord_str ''B'', Node [] [] [])]),
             (ord_str ''C'', Node [] [] [])]"
proof -
  let ?s = "\<lparr>accordion_data = ex_tree, current_selection = ord_str ''A'',
          selected_image_path = [], locked_paths = {}\<rparr>"
  have sp: "split_path (ord_str ''A'') = [ord_str ''A'']"
    by (simp add: split_path_def ord_str_def path_sep_def)
  have n: "normalize_universal_bullets (\<lambda>c. False) [] = []"
    by (simp add: normalize_universal_bullets_def split_lines_def join_lines_def normalize_line_def
          regex_match_def bullet_start_regex_def bullet_alt_def)
  have 1: "current_selection ?s \<noteq> []" by (simp add: ord_str_def)
  have 2: "if_truthy (any_ancestor_locked (locked_paths ?s) (current_selection ?s)) = None"
    by (simp add: if_truthy_def any_ancestor_locked_def sp)
  have 3: "get_parent_dict_and_key (accordion_data ?s) (current_selection ?s)
             = Some (ex_tree, ord_str ''A'')"
    by (simp add: ev ex_tree_def)
  have 4: "distinct (map fst ex_tree)" by (simp add: ex_tree_def ord_str_def)
  have 5: "0 < length ex_tree" by (simp add: ex_tree_def)
  have 6: "fst (ex_tree ! 0) = ord_str ''A''" by (simp add: ex_tree_def)
  have 7: "strip (ord_str ''Q'') \<noteq> []" by (simp add: strip_def is_space_def ord_str_def)
  have 8: "strip (ord_str ''Q'') \<noteq> ord_str ''A''" by (simp add: strip_def is_space_def ord_str_def)
  have 9: "\<not> has_key ex_tree (strip (ord_str ''Q''))"
    by (simp add: has_key_def ex_tree_def strip_def is_space_def ord_str_def)
  show ?thesis
    using rename_keeps_position[OF 1 2 3 4 5 6 7 8 9, of "\<lambda>c. False" "[]"]
    by (simp add: n ex_tree_def strip_def is_space_def ord_str_def split_path_def path_sep_def)
qed

text \<open>
  Claim C9. A save of an existing item that succeeds leaves the item, under the title
  that was entered, with its subtitles and with the image path it had when no image is
  selected (and with the selected image path otherwise, which is not empty); a save that
  does not succeed leaves the tree as it was. So a save never clears the image path.
\<close>

theorem save_keeps_image:
  assumes "get_parent_dict_and_key (accordion_data s) (current_selection s) = Some (parent, old_key)"
    and "map_of parent old_key = Some item"
    and "distinct (map fst parent)"
  shows "(fst (save_changes isd title_entry content_text s) = Done \<longrightarrow>
            (\<exists>parent' item'.
               descend (accordion_data (snd (save_changes isd title_entry content_text s)))
                       (butlast (split_path (current_selection s))) = Some parent'
               \<and> map_of parent' (strip title_entry) = Some item'
               \<and> subtitles item' = subtitles item
               \<and> image_path item' = (if selected_image_path s = [] then image_path item
                                       else selected_image_path s)))
       \<and> (fst (save_changes isd title_entry content_text s) \<noteq> Done \<longrightarrow>
            accordion_data (snd (save_changes isd title_entry content_text s)) = accordion_data s)"
proof -
  let ?r = "save_changes isd title_entry content_text s"
  let ?new = "strip title_entry"
  have sel: "current_selection s \<noteq> []" using gpk_SomeD(1)[OF assms(1)] .
  have d: "descend (accordion_data s) (butlast (split_path (current_selection s))) = Some parent"
    using gpk_SomeD(2)[OF assms(1)] .
  have old_in: "old_key \<in> set (map fst parent)" using gpk_SomeD(4)[OF assms(1)] .
  consider (locked) g where "if_truthy (any_ancestor_locked (locked_paths s) (current_selection s)) = Some g"
    | (empty) "if_truthy (any_ancestor_locked (locked_paths s) (current_selection s)) = None"
              "?new = []"
    | (dup) "if_truthy (any_ancestor_locked (locked_paths s) (current_selection s)) = None"
              "?new \<noteq> []" "?new \<noteq> old_key" "has_key parent ?new"
    | (rename) "if_truthy (any_ancestor_locked (locked_paths s) (current_selection s)) = None"
              "?new \<noteq> []" "?new \<noteq> old_key" "\<not> has_key parent ?new"
    | (same) "if_truthy (any_ancestor_locked (locked_paths s) (current_selection s)) = None"
              "?new \<noteq> []" "?new = old_key"
    by (cases "if_truthy (any_ancestor_locked (locked_paths s) (current_selection s))") auto
  then show ?thesis
  proof cases
    case locked
    then have "?r = (Locked g, s)" using sel by (simp add: save_changes_def)
    then show ?thesis by simp
  next
    case empty
    then have "?r = (EmptyTitle, s)" using sel assms(1,2) by (simp add: save_changes_def Let_def)
    then show ?thesis by simp
  next
    case dup
    then have "?r = (DuplicateTitle, s)" using sel assms(1,2) by (simp add: save_changes_def Let_def)
    then show ?thesis by simp
  next
    case rename
    have "map_of (map (\<lambda>kv. if fst kv = old_key
                              then (?new,
                                    Node (normalize_universal_bullets isd (strip content_text))
                                         (if selected_image_path s \<noteq> [] then selected_image_path s
                                          else image_path item)
                                         (subtitles item))
                              else kv) parent) ?new
          = Some (Node (normalize_universal_bullets isd (strip content_text))
                                         (if selected_image_path s \<noteq> [] then selected_image_path s
                                          else image_path item)
                                         (subtitles item))"
      using old_in rename(4) by (intro map_of_renamed) (simp_all add: has_key_def)
    then show ?thesis
      using save_changes_rename[OF sel rename(1) assms(1,2,3) rename(2,3,4), of isd content_text]
        descend_update_same[OF d]
      by auto
  next
    case same
    then have "old_key \<noteq> []" by simp
    then show ?thesis
      using save_changes_same_title[OF sel same(1) assms(1,2) same(3), of isd content_text]
        descend_update_same[OF d] same(3)
      by (auto simp: update_conv')
  qed
qed


theorem save_keeps_image_witness:
  "fst (save_changes (\<lambda>c. False) (ord_str ''A'') (ord_str ''text'')
         \<lparr>accordion_data = ex_img_tree, current_selection = ord_str ''A'',
          selected_image_path = [], locked_paths = {}\<rparr>) = Done
   \<and> (\<exists>parent' item'.
         descend (accordion_data (snd (save_changes (\<lambda>c. False) (ord_str ''A'') (ord_str ''text'')
             \<lparr>accordion_data = ex_img_tree, current_selection = ord_str ''A'',
              selected_image_path = [], locked_paths = {}\<rparr>))) [] = Some parent'
         \<and> map_of parent' (ord_str ''A'') = Some item'
         \<and> image_path item' = ord_str ''a.png'')"
proof -
  let ?s = "\<lparr>accordion_data = ex_img_tree, current_selection = ord_str ''A'',
          selected_image_path = [], locked_paths = {}\<rparr>"
  have 1: "get_parent_dict_and_key (accordion_data ?s) (current_selection ?s)
             = Some (ex_img_tree, ord_str ''A'')"
    by (simp add: ev ex_img_tree_def)
  have 2: "map_of ex_img_tree (ord_str ''A'') = Some (Node (ord_str ''text'') (ord_str ''a.png'') [])"
    by (simp add: ex_img_tree_def)
  have 3: "distinct (map fst ex_img_tree)" by (simp add: ex_img_tree_def)
  have sp: "butlast (split_path (ord_str ''A'')) = []" "strip (ord_str ''A'') = ord_str ''A''"
    by (simp_all add: split_path_def ord_str_def path_sep_def strip_def is_space_def)
  have d: "fst (save_changes (\<lambda>c. False) (ord_str ''A'') (ord_str ''text'') ?s) = Done"
    using save_changes_same_title[of ?s ex_img_tree "ord_str ''A''" _ "ord_str ''A''" "\<lambda>c. False" "ord_str ''text''"] 1 2 sp(2)
    by (simp add: ev)
  show ?thesis
    using save_keeps_image[OF 1 2 3, of "\<lambda>c. False" "ord_str ''A''" "ord_str ''text''"] d sp
    by auto
qed

section \<open>Moving, inserting and relocating\<close>

lemma get_siblings_descend:
  assumes "p \<noteq> []" and "descend t (butlast (split_path p)) = Some parent"
  shows "get_siblings t p = Some (parent, map fst parent)"
proof (cases "length (split_path p) = 1")
  case True
  then have "butlast (split_path p) = []" by (cases "split_path p") auto
  with assms(2) have "parent = t" by simp
  with True assms(1) show ?thesis by (simp add: get_siblings_def)
next
  case False
  with assms show ?thesis by (simp add: get_siblings_def)
qed

lemma distinct_keys_swap:
  assumes "i < length xs" and "j < length xs"
  shows "distinct (map fst (xs[i := xs ! j, j := xs ! i])) = distinct (map fst xs)"
proof -
  have "map fst (xs[i := xs ! j, j := xs ! i])
          = (map fst xs)[i := map fst xs ! j, j := map fst xs ! i]"
    using assms by (simp add: map_update)
  moreover have "distinct ((map fst xs)[i := map fst xs ! j, j := map fst xs ! i])
          = distinct (map fst xs)"
    using assms by (intro distinct_swap) simp_all
  ultimately show ?thesis by (simp only:)
qed

lemma set_swap_sub: "i < length xs \<Longrightarrow> j < length xs \<Longrightarrow> set (xs[i := xs ! j, j := xs ! i]) \<subseteq> set xs"
  by (metis set_swap subset_refl)

lemma move_item_finish:
  assumes dist: "distinct (map fst parent)"
    and i: "i < length parent" and j: "j < length parent"
    and ins: "list_insert (list_pop parent i) j (parent ! i) = parent[a := parent ! b, b := parent ! a]"
    and ab: "a < length parent" "b < length parent"
  shows "reorder_items parent (list_insert (list_pop (map fst parent) i) j (map fst parent ! i))
           = Some (parent[a := parent ! b, b := parent ! a])
       \<and> dict_of_items (parent[a := parent ! b, b := parent ! a]) = parent[a := parent ! b, b := parent ! a]"
proof -
  have "list_insert (list_pop (map fst parent) i) j (map fst parent ! i)
          = map fst (list_insert (list_pop parent i) j (parent ! i))"
    using i by (simp add: list_insert_def list_pop_def take_map drop_map)
  then have "reorder_items parent (list_insert (list_pop (map fst parent) i) j (map fst parent ! i))
          = reorder_items parent (map fst (parent[a := parent ! b, b := parent ! a]))"
    using ins by simp
  also have "\<dots> = Some (parent[a := parent ! b, b := parent ! a])"
    using dist set_swap_sub[OF ab] by (rule reorder_items_sub)
  finally have 1: "reorder_items parent (list_insert (list_pop (map fst parent) i) j (map fst parent ! i))
           = Some (parent[a := parent ! b, b := parent ! a])" .
  have "distinct (map fst (parent[a := parent ! b, b := parent ! a]))"
    using distinct_keys_swap[OF ab] dist by simp
  then have "dict_of_items (parent[a := parent ! b, b := parent ! a]) = parent[a := parent ! b, b := parent ! a]"
    by (rule dict_of_items_distinct)
  with 1 show ?thesis by simp
qed

text \<open>
  Claim C7. For an unlocked item that is entry \<open>idx\<close> of its parent dictionary: moving up
  at index 0 and moving down at the last index report \<open>AlreadyAtBoundary\<close> and return the
  state as it was; otherwise the move succeeds and the parent dictionary afterwards is
  the old one with the entries at \<open>idx\<close> and at its neighbour in the direction of the move
  exchanged, every other entry in place. The parent dictionary has distinct keys, as
  every Python dictionary has.
\<close>

theorem move_item_swaps_neighbours:
  assumes sel: "current_selection s \<noteq> []"
    and unlocked: "if_truthy (any_ancestor_locked (locked_paths s) (current_selection s)) = None"
    and d: "descend (accordion_data s) (butlast (split_path (current_selection s))) = Some parent"
    and dist: "distinct (map fst parent)"
    and idx: "idx < length parent" "fst (parent ! idx) = last (split_path (current_selection s))"
  shows "(idx = 0 \<longrightarrow> move_item ''up'' s = (AlreadyAtBoundary, s))
       \<and> (idx = length parent - 1 \<longrightarrow> move_item ''down'' s = (AlreadyAtBoundary, s))
       \<and> (0 < idx \<longrightarrow>
            fst (move_item ''up'' s) = Done
            \<and> descend (accordion_data (snd (move_item ''up'' s)))
                       (butlast (split_path (current_selection s)))
              = Some (parent[idx - 1 := parent ! idx, idx := parent ! (idx - 1)]))
       \<and> (idx < length parent - 1 \<longrightarrow>
            fst (move_item ''down'' s) = Done
            \<and> descend (accordion_data (snd (move_item ''down'' s)))
                       (butlast (split_path (current_selection s)))
              = Some (parent[idx := parent ! (idx + 1), idx + 1 := parent ! idx]))"
proof -
  have sib: "get_siblings (accordion_data s) (current_selection s) = Some (parent, map fst parent)"
    using sel d by (rule get_siblings_descend)
  have "py_index (map fst parent) (map fst parent ! idx) = Some idx"
    using dist idx(1) by (intro py_index_distinct) simp_all
  then have pi: "py_index (map fst parent) (last (split_path (current_selection s))) = Some idx"
    using idx by simp
  have top: "move_item ''up'' s = (AlreadyAtBoundary, s)" if "idx = 0"
    using sel unlocked sib pi that by (simp add: move_item_def Let_def)
  have bottom: "move_item ''down'' s = (AlreadyAtBoundary, s)" if "idx = length parent - 1"
    using sel unlocked sib pi that by (simp add: move_item_def Let_def)
  have up: "fst (move_item ''up'' s) = Done
            \<and> descend (accordion_data (snd (move_item ''up'' s)))
                       (butlast (split_path (current_selection s)))
              = Some (parent[idx - 1 := parent ! idx, idx := parent ! (idx - 1)])" if pos: "0 < idx"
  proof -
    obtain i where i: "idx = Suc i" using pos by (cases idx) auto
    have "list_insert (list_pop parent (Suc i)) i (parent ! Suc i)
            = parent[i := parent ! Suc i, Suc i := parent ! i]"
      using idx(1) i by (intro pop_insert_up) simp
    from move_item_finish[OF dist _ _ this] idx(1) i
    have fin: "reorder_items parent (list_insert (list_pop (map fst parent) (Suc i)) i (map fst parent ! Suc i))
                 = Some (parent[i := parent ! Suc i, Suc i := parent ! i])"
         "dict_of_items (parent[i := parent ! Suc i, Suc i := parent ! i])
                 = parent[i := parent ! Suc i, Suc i := parent ! i]"
      by simp_all
    have "move_item ''up'' s =
        (Done, update_structure_display (Some (current_selection s))
           (s\<lparr>accordion_data := update_dict_at (butlast (split_path (current_selection s)))
                 (\<lambda>_. parent[i := parent ! Suc i, Suc i := parent ! i]) (accordion_data s)\<rparr>))"
      using sel unlocked sib pi i fin by (simp add: move_item_def Let_def)
    then show ?thesis using descend_update_same[OF d] i by simp
  qed
  have down: "fst (move_item ''down'' s) = Done
            \<and> descend (accordion_data (snd (move_item ''down'' s)))
                       (butlast (split_path (current_selection s)))
              = Some (parent[idx := parent ! (idx + 1), idx + 1 := parent ! idx])"
    if "idx < length parent - 1"
  proof -
    have lt: "Suc idx < length parent" using that by simp
    have "list_insert (list_pop parent idx) (Suc idx) (parent ! idx)
            = parent[idx := parent ! Suc idx, Suc idx := parent ! idx]"
      using lt by (rule pop_insert_down)
    from move_item_finish[OF dist _ _ this] lt
    have fin: "reorder_items parent (list_insert (list_pop (map fst parent) idx) (Suc idx) (map fst parent ! idx))
                 = Some (parent[idx := parent ! Suc idx, Suc idx := parent ! idx])"
         "dict_of_items (parent[idx := parent ! Suc idx, Suc idx := parent ! idx])
                 = parent[idx := parent ! Suc idx, Suc idx := parent ! idx]"
      by simp_all
    have "move_item ''down'' s =
        (Done, update_structure_display (Some (current_selection s))
           (s\<lparr>accordion_data := update_dict_at (butlast (split_path (current_selection s)))
                 (\<lambda>_. parent[idx := parent ! Suc idx, Suc idx := parent ! idx]) (accordion_data s)\<rparr>))"
      using sel unlocked sib pi that fin by (simp add: move_item_def Let_def)
    then show ?thesis using descend_update_same[OF d] by simp
  qed
  show ?thesis using top bottom up down by blast
qed


theorem move_item_swaps_neighbours_witness:
  "move_item ''up'' \<lparr>accordion_data = ex_tree, current_selection = ord_str ''A'',
                       selected_image_path = [], locked_paths = {}\<rparr>
     = (AlreadyAtBoundary, \<lparr>accordion_data = ex_tree, current_selection = ord_str ''A'',
                             selected_image_path = [], locked_paths = {}\<rparr>)
   \<and> fst (move_item ''down'' \<lparr>accordion_data = ex_tree, current_selection = ord_str ''A'',
                       selected_image_path = [], locked_paths = {}\<rparr>) = Done
   \<and> descend (accordion_data (snd (move_item ''down''
          \<lparr>accordion_data = ex_tree, current_selection = ord_str ''A'',
           selected_image_path = [], locked_paths = {}\<rparr>))) []
       = Some [(ord_str ''C'', Node [] [] []),
               (ord_str ''A'', Node [] [] [(ord_str ''B'', Node [] [] [])])]
   \<and> move_item ''down'' \<lparr>accordion_data = ex_tree, current_selection = ord_str ''C'',
                       selected_image_path = [], locked_paths = {}\<rparr>
     = (AlreadyAtBoundary, \<lparr>accordion_data = ex_tree, current_selection = ord_str ''C'',
                             selected_image_path = [], locked_paths = {}\<rparr>)
   \<and> fst (move_item ''up'' \<lparr>accordion_data = ex_tree, current_selection = ord_str ''C'',
                       selected_image_path = [], locked_paths = {}\<rparr>) = Done
   \<and> descend (accordion_data (snd (move_item ''up''
          \<lparr>accordion_data = ex_tree, current_selection = ord_str ''C'',
           selected_image_path = [], locked_paths = {}\<rparr>))) []
       = Some [(ord_str ''C'', Node [] [] []),
               (ord_str ''A'', Node [] [] [(ord_str ''B'', Node [] [] [])])]"
proof -
  let ?sA = "\<lparr>accordion_data = ex_tree, current_selection = ord_str ''A'',
                       selected_image_path = [], locked_paths = {}\<rparr>"
  let ?sC = "\<lparr>accordion_data = ex_tree, current_selection = ord_str ''C'',
                       selected_image_path = [], locked_paths = {}\<rparr>"
  have spA: "split_path (ord_str ''A'') = [ord_str ''A'']"
    and spC: "split_path (ord_str ''C'') = [ord_str ''C'']"
    by (simp_all add: split_path_def ord_str_def path_sep_def)
  have dist: "distinct (map fst ex_tree)" by (simp add: ex_tree_def ord_str_def)
  have A: "current_selection ?sA \<noteq> []"
      "if_truthy (any_ancestor_locked (locked_paths ?sA) (current_selection ?sA)) = None"
      "descend (accordion_data ?sA) (butlast (split_path (current_selection ?sA))) = Some ex_tree"
      "0 < length ex_tree" "fst (ex_tree ! 0) = last (split_path (current_selection ?sA))"
    by (simp_all add: spA if_truthy_def any_ancestor_locked_def ex_tree_def) (simp add: ord_str_def)
  have C: "current_selection ?sC \<noteq> []"
      "if_truthy (any_ancestor_locked (locked_paths ?sC) (current_selection ?sC)) = None"
      "descend (accordion_data ?sC) (butlast (split_path (current_selection ?sC))) = Some ex_tree"
      "1 < length ex_tree" "fst (ex_tree ! 1) = last (split_path (current_selection ?sC))"
    by (simp_all add: spC if_truthy_def any_ancestor_locked_def ex_tree_def) (simp add: ord_str_def)
  show ?thesis
    using move_item_swaps_neighbours[OF A(1,2,3) dist A(4,5)]
      move_item_swaps_neighbours[OF C(1,2,3) dist C(4,5)]
    by (simp add: spA spC ex_tree_def)
qed

lemma update_dict_at_append:
  "update_dict_at (xs @ ys) f d = update_dict_at xs (update_dict_at ys f) d"
  by (induction xs arbitrary: d) (auto split: option.splits)

lemma gid_SomeD:
  assumes "get_item_data t p = Some n"
  shows "\<exists>parent. get_parent_dict_and_key t p = Some (parent, last (split_path p))
           \<and> map_of parent (last (split_path p)) = Some n"
  using assms gpk_SomeD(3)
  by (fastforce simp: get_item_data_def split: option.splits prod.splits)

lemma get_item_data_update_subs:
  assumes "get_item_data t p = Some n"
  shows "get_item_data (update_dict_at (split_path p) f t) p
           = Some (Node (content n) (image_path n) (f (subtitles n)))"
proof -
  obtain parent where gp: "get_parent_dict_and_key t p = Some (parent, last (split_path p))"
    and n: "map_of parent (last (split_path p)) = Some n"
    using gid_SomeD[OF assms] by blast
  let ?pp = "butlast (split_path p)" and ?k = "last (split_path p)"
  have parts: "split_path p = ?pp @ [?k]" using split_str_nonempty' by simp
  have d: "descend t ?pp = Some parent" using gpk_SomeD(2)[OF gp] .
  have "update_dict_at (split_path p) f t = update_dict_at ?pp (update_dict_at [?k] f) t"
    by (subst parts) (rule update_dict_at_append)
  then have d': "descend (update_dict_at (split_path p) f t) ?pp
           = Some (AList.update ?k (Node (content n) (image_path n) (f (subtitles n))) parent)"
    using descend_update_same[OF d, of "update_dict_at [?k] f"] n by simp
  have "?k \<in> set (map fst (AList.update ?k (Node (content n) (image_path n) (f (subtitles n))) parent))"
    by (simp add: update_keys)
  from gpk_SomeI[OF gpk_SomeD(1)[OF gp] d' this]
  show ?thesis by (simp add: get_item_data_def update_conv')
qed

text \<open>
  Claim C6. Let \<open>target\<close> be the result of \<open>any_ancestor_locked\<close> on the selection when there is
  one, and the selection itself otherwise. When \<open>target\<close> resolves to an item and the new
  title is free among its subtitles, \<open>add_subtitle\<close> succeeds and that item has afterwards
  its old subtitles followed by the new item as the last one. The result of
  \<open>any_ancestor_locked\<close> is the shortest locked prefix of the selection (prefixes of 1, 2,
  ... parts, up to the selection itself), and there is none exactly when no prefix is
  locked. The lock set holds paths, and the empty string is not one.
\<close>

theorem add_subtitle_under_governing_ancestor:
  assumes title: "strip title_entry \<noteq> []"
    and sel: "current_selection s \<noteq> []"
    and nolock: "[] \<notin> locked_paths s"
    and target: "target = (case any_ancestor_locked (locked_paths s) (current_selection s) of
                             Some g \<Rightarrow> g | None \<Rightarrow> current_selection s)"
    and res: "get_item_data (accordion_data s) target = Some n"
    and free: "\<not> has_key (subtitles n) (strip title_entry)"
  shows "fst (add_subtitle isd title_entry content_text s) = Done
       \<and> get_item_data (accordion_data (snd (add_subtitle isd title_entry content_text s))) target
           = Some (Node (content n) (image_path n)
                     (subtitles n @ [(strip title_entry,
                          Node (normalize_universal_bullets isd (strip content_text))
                               (selected_image_path s) [])]))
       \<and> (case any_ancestor_locked (locked_paths s) (current_selection s) of
             None \<Rightarrow> \<forall>i < length (split_path (current_selection s)).
                        join_path (take (Suc i) (split_path (current_selection s))) \<notin> locked_paths s
           | Some g \<Rightarrow> \<exists>i < length (split_path (current_selection s)).
                        g = join_path (take (Suc i) (split_path (current_selection s)))
                        \<and> g \<in> locked_paths s
                        \<and> (\<forall>j < i. join_path (take (Suc j) (split_path (current_selection s)))
                                       \<notin> locked_paths s))"
proof -
  have tr: "(case if_truthy (any_ancestor_locked (locked_paths s) (current_selection s)) of
               Some g \<Rightarrow> g | None \<Rightarrow> current_selection s) = target"
  proof (cases "any_ancestor_locked (locked_paths s) (current_selection s)")
    case None
    then show ?thesis by (simp add: target if_truthy_def)
  next
    case (Some g)
    then have "g \<in> locked_paths s" by (auto simp: any_ancestor_locked_Some)
    with nolock have "g \<noteq> []" by blast
    with Some show ?thesis by (simp add: target if_truthy_def)
  qed
  obtain parent where gp: "get_parent_dict_and_key (accordion_data s) target
                             = Some (parent, last (split_path target))"
    and n: "map_of parent (last (split_path target)) = Some n"
    using gid_SomeD[OF res] by blast
  have new: "AList.update (strip title_entry) v (subtitles n) = subtitles n @ [(strip title_entry, v)]"
    for v using free by (simp add: has_key_def update_new)
  have "add_subtitle isd title_entry content_text s =
      (Done, update_structure_display (Some (target @ path_sep @ strip title_entry))
         (clear_inputs (s\<lparr>accordion_data := update_dict_at (split_path target)
              (AList.update (strip title_entry)
                 (Node (normalize_universal_bullets isd (strip content_text)) (selected_image_path s) []))
              (accordion_data s)\<rparr>)))"
    using title sel gp n free by (simp add: add_subtitle_def Let_def tr)
  then have 1: "fst (add_subtitle isd title_entry content_text s) = Done"
    and 2: "accordion_data (snd (add_subtitle isd title_entry content_text s))
             = update_dict_at (split_path target)
              (AList.update (strip title_entry)
                 (Node (normalize_universal_bullets isd (strip content_text)) (selected_image_path s) []))
              (accordion_data s)"
    by (simp_all add: clear_inputs_def)
  have 3: "get_item_data (accordion_data (snd (add_subtitle isd title_entry content_text s))) target
           = Some (Node (content n) (image_path n)
                     (subtitles n @ [(strip title_entry,
                          Node (normalize_universal_bullets isd (strip content_text))
                               (selected_image_path s) [])]))"
    unfolding 2 using get_item_data_update_subs[OF res] new by simp
  have 4: "(case any_ancestor_locked (locked_paths s) (current_selection s) of
             None \<Rightarrow> \<forall>i < length (split_path (current_selection s)).
                        join_path (take (Suc i) (split_path (current_selection s))) \<notin> locked_paths s
           | Some g \<Rightarrow> \<exists>i < length (split_path (current_selection s)).
                        g = join_path (take (Suc i) (split_path (current_selection s)))
                        \<and> g \<in> locked_paths s
                        \<and> (\<forall>j < i. join_path (take (Suc j) (split_path (current_selection s)))
                                       \<notin> locked_paths s))"
  proof (cases "any_ancestor_locked (locked_paths s) (current_selection s)")
    case None
    from None[unfolded any_ancestor_locked_None] show ?thesis by (simp add: None)
  next
    case (Some g)
    from Some[unfolded any_ancestor_locked_Some] show ?thesis by (simp add: Some)
  qed
  show ?thesis using 1 3 4 by blast
qed


lemma normalize_empty: "normalize_universal_bullets isd [] = []"
  by (simp add: normalize_universal_bullets_def split_lines_def join_lines_def normalize_line_def
        regex_match_def bullet_start_regex_def bullet_alt_def)

theorem add_subtitle_under_governing_ancestor_witness:
  "fst (add_subtitle (\<lambda>c. False) (ord_str ''N'') []
         \<lparr>accordion_data = ex_tree, current_selection = ord_str ''A > B'',
          selected_image_path = [], locked_paths = {ord_str ''A''}\<rparr>) = Done
   \<and> get_item_data (accordion_data (snd (add_subtitle (\<lambda>c. False) (ord_str ''N'') []
         \<lparr>accordion_data = ex_tree, current_selection = ord_str ''A > B'',
          selected_image_path = [], locked_paths = {ord_str ''A''}\<rparr>))) (ord_str ''A'')
       = Some (Node [] [] [(ord_str ''B'', Node [] [] []), (ord_str ''N'', Node [] [] [])])"
proof -
  let ?s = "\<lparr>accordion_data = ex_tree, current_selection = ord_str ''A > B'',
          selected_image_path = [], locked_paths = {ord_str ''A''}\<rparr>"
  have st: "strip (ord_str ''N'') = ord_str ''N''"
    by (simp add: strip_def is_space_def ord_str_def)
  have se: "strip [] = []" by (simp add: strip_def)
  have 1: "strip (ord_str ''N'') \<noteq> []" by (simp add: st) (simp add: ord_str_def)
  have 2: "current_selection ?s \<noteq> []" by (simp add: ord_str_def)
  have 3: "[] \<notin> locked_paths ?s" by (simp add: ord_str_def)
  have 4: "ord_str ''A'' = (case any_ancestor_locked (locked_paths ?s) (current_selection ?s) of
                             Some g \<Rightarrow> g | None \<Rightarrow> current_selection ?s)"
    by (simp add: ev)
  have 5: "get_item_data (accordion_data ?s) (ord_str ''A'')
             = Some (Node [] [] [(ord_str ''B'', Node [] [] [])])"
    by (simp add: ev ex_tree_def)
  have 6: "\<not> has_key (subtitles (Node [] [] [(ord_str ''B'', Node [] [] [])])) (strip (ord_str ''N''))"
    by (simp add: st has_key_def) (simp add: ord_str_def)
  show ?thesis
    using add_subtitle_under_governing_ancestor[OF 1 2 3 4 5 6, of "\<lambda>c. False" "[]"]
    by (simp add: st se normalize_empty)
qed

lemma update_after_delete:
  "AList.update k v (AList.delete k d) = AList.delete k d @ [(k, v)]"
  using delete_notin_dom[of k d] by (intro update_new) simp

text \<open>
  Claim C10. A change-path of an unlocked, existing item to a destination whose parts
  are the parts of the item's own path followed by at least one more part fails with
  \<open>DestinationParentNotFound\<close>: the item is taken out before the destination is looked
  up, so the lookup stops at the item's own title. The item is then put back into its
  parent dictionary (as the last entry), and its path resolves to the same item with its
  whole subtree as before.
\<close>

theorem relocate_into_own_subtree:
  assumes sel: "current_selection s \<noteq> []"
    and unlocked: "if_truthy (any_ancestor_locked (locked_paths s) (current_selection s)) = None"
    and res: "get_item_data (accordion_data s) (current_selection s) = Some item"
    and np: "np \<noteq> []"
    and inside: "filter (\<lambda>p. p \<noteq> []) (map strip (split_path np))
                   = split_path (current_selection s) @ rest"
    and rest: "rest \<noteq> []"
  shows "change_path (Some np) s
           = (DestinationParentNotFound,
              s\<lparr>accordion_data :=
                   update_dict_at (butlast (split_path (current_selection s)))
                     (\<lambda>d. AList.delete (last (split_path (current_selection s))) d
                           @ [(last (split_path (current_selection s)), item)])
                     (accordion_data s)\<rparr>)
       \<and> get_item_data
            (update_dict_at (butlast (split_path (current_selection s)))
               (\<lambda>d. AList.delete (last (split_path (current_selection s))) d
                     @ [(last (split_path (current_selection s)), item)])
               (accordion_data s))
            (current_selection s) = Some item"
proof -
  let ?parts = "split_path (current_selection s)"
  let ?pp = "butlast ?parts" and ?k = "last ?parts"
  let ?t = "accordion_data s"
  obtain parent where gp: "get_parent_dict_and_key ?t (current_selection s) = Some (parent, ?k)"
    and item: "map_of parent ?k = Some item"
    using gid_SomeD[OF res] by blast
  have d: "descend ?t ?pp = Some parent" using gpk_SomeD(2)[OF gp] .
  have parts: "?parts = ?pp @ [?k]" using split_str_nonempty' by simp
  let ?removed = "update_dict_at ?pp (AList.delete ?k) ?t"
  have dr: "descend ?removed ?pp = Some (AList.delete ?k parent)"
    using d by (rule descend_update_same)
  have "butlast (?parts @ rest) = ?pp @ ?k # butlast rest"
    using rest parts by (metis append_Cons append_Nil append_assoc butlast_append)
  then have "descend ?removed (butlast (?parts @ rest)) = None"
    using dr by (simp add: descend_append delete_conv')
  then have gone: "ensure_parent_path ?removed (?parts @ rest) = None"
    by (simp add: ensure_parent_path_def)
  have restored: "update_dict_at ?pp (AList.update ?k item) ?removed
                    = update_dict_at ?pp (\<lambda>d. AList.delete ?k d @ [(?k, item)]) ?t"
    by (simp add: update_dict_at_comp update_after_delete)
  have ne: "?parts @ rest \<noteq> []" using rest by simp
  have 1: "change_path (Some np) s
           = (DestinationParentNotFound,
              s\<lparr>accordion_data := update_dict_at ?pp (\<lambda>d. AList.delete ?k d @ [(?k, item)]) ?t\<rparr>)"
    using sel unlocked np gp item inside ne gone restored
    by (simp add: change_path_def Let_def if_truthy_def)
  have d': "descend (update_dict_at ?pp (\<lambda>d. AList.delete ?k d @ [(?k, item)]) ?t) ?pp
              = Some (AList.delete ?k parent @ [(?k, item)])"
    using d by (rule descend_update_same)
  have "?k \<in> set (map fst (AList.delete ?k parent @ [(?k, item)]))" by simp
  from gpk_SomeI[OF sel d' this]
  have 2: "get_item_data (update_dict_at ?pp (\<lambda>d. AList.delete ?k d @ [(?k, item)]) ?t)
             (current_selection s) = Some item"
    by (simp add: get_item_data_def delete_conv' map_add_def)
  show ?thesis using 1 2 by blast
qed

theorem relocate_into_own_subtree_witness:
  "change_path (Some (ord_str ''A > B > Z''))
     \<lparr>accordion_data = ex_tree, current_selection = ord_str ''A'',
      selected_image_path = [], locked_paths = {}\<rparr>
   = (DestinationParentNotFound,
      \<lparr>accordion_data = [(ord_str ''C'', Node [] [] []),
                          (ord_str ''A'', Node [] [] [(ord_str ''B'', Node [] [] [])])],
       current_selection = ord_str ''A'', selected_image_path = [], locked_paths = {}\<rparr>)
   \<and> get_item_data [(ord_str ''C'', Node [] [] []),
                     (ord_str ''A'', Node [] [] [(ord_str ''B'', Node [] [] [])])] (ord_str ''A'')
       = Some (Node [] [] [(ord_str ''B'', Node [] [] [])])"
proof -
  let ?s = "\<lparr>accordion_data = ex_tree, current_selection = ord_str ''A'',
      selected_image_path = [], locked_paths = {}\<rparr>"
  have sp: "split_path (ord_str ''A'') = [ord_str ''A'']"
    by (simp add: split_path_def ord_str_def path_sep_def)
  have 1: "current_selection ?s \<noteq> []" by (simp add: ord_str_def)
  have 2: "if_truthy (any_ancestor_locked (locked_paths ?s) (current_selection ?s)) = None"
    by (simp add: if_truthy_def any_ancestor_locked_def sp)
  have 3: "get_item_data (accordion_data ?s) (current_selection ?s)
             = Some (Node [] [] [(ord_str ''B'', Node [] [] [])])"
    by (simp add: ev ex_tree_def)
  have 4: "ord_str ''A > B > Z'' \<noteq> []" by (simp add: ord_str_def)
  have 5: "filter (\<lambda>p. p \<noteq> []) (map strip (split_path (ord_str ''A > B > Z'')))
             = split_path (current_selection ?s) @ [ord_str ''B'', ord_str ''Z'']"
    by (simp add: split_path_def ord_str_def path_sep_def strip_def is_space_def)
  have 6: "[ord_str ''B'', ord_str ''Z''] \<noteq> []" by simp
  show ?thesis
    using relocate_into_own_subtree[OF 1 2 3 4 5 6]
    by (simp add: sp ex_tree_def) (simp add: ord_str_def)
qed

end
